theory Spec2Isabelle
  imports Complex_Main "HOL-Library.Sublist"
begin

section \<open>Strings\<close>

text \<open>
  Python strings are modelled as lists of 8-bit characters, read as the code points
  below 256. The character classes below are the ones that \<^verbatim>\<open>str.split()\<close>,
  \<^verbatim>\<open>str.strip()\<close>, \<^verbatim>\<open>str.lower()\<close> and the \<^verbatim>\<open>re\<close> module use on that range.
  Record fields carry a prefix naming their class (\<open>cm_\<close> for \<^verbatim>\<open>ChunkMetadata\<close>,
  \<open>sec_\<close> for \<^verbatim>\<open>Section\<close>, and so on), because several classes of the source share
  field names and some of them (\<^verbatim>\<open>text\<close>, \<^verbatim>\<open>chapter\<close>, \<^verbatim>\<open>section\<close>) are reserved here.
\<close>

definition is_space :: "char \<Rightarrow> bool" where
  \<comment> \<open>\<^verbatim>\<open>str.isspace\<close> and the regex class \<^verbatim>\<open>\s\<close>: tab, LF, VT, FF, CR,
      the separators 0x1C..0x1F, space, NEL (0x85) and the no-break space (0xA0).\<close>
  "is_space c \<longleftrightarrow>
     c \<in> set [CHR 0x09, CHR 0x0A, CHR 0x0B, CHR 0x0C, CHR 0x0D, CHR 0x1C, CHR 0x1D,
              CHR 0x1E, CHR 0x1F, CHR 0x20, CHR 0x85, CHR 0xA0]"

definition is_digit :: "char \<Rightarrow> bool" where
  \<comment> \<open>the regex class \<^verbatim>\<open>\d\<close>\<close>
  "is_digit c \<longleftrightarrow> c \<in> set ''0123456789''"

definition is_upper :: "char \<Rightarrow> bool" where
  \<comment> \<open>the characters that \<^verbatim>\<open>str.lower()\<close> changes: A..Z and 0xC0..0xDE without 0xD7\<close>
  "is_upper c \<longleftrightarrow>
     (let n = of_char c :: nat
      in (65 \<le> n \<and> n \<le> 90) \<or> (192 \<le> n \<and> n \<le> 222 \<and> n \<noteq> 215))"

fun set_bit5 :: "char \<Rightarrow> char" where
  "set_bit5 (Char b0 b1 b2 b3 b4 b5 b6 b7) = Char b0 b1 b2 b3 b4 True b6 b7"

definition lower_char :: "char \<Rightarrow> char" where
  \<comment> \<open>the lower-case letter is 32 code points up; bit 5 is clear in every upper-case one\<close>
  "lower_char c = (if is_upper c then set_bit5 c else c)"

definition is_word_char :: "char \<Rightarrow> bool" where
  \<comment> \<open>the regex class \<^verbatim>\<open>\w\<close>: alphanumeric characters and the underscore\<close>
  "is_word_char c \<longleftrightarrow>
     (let n = of_char c :: nat
      in (48 \<le> n \<and> n \<le> 57) \<or> (65 \<le> n \<and> n \<le> 90) \<or> n = 95 \<or> (97 \<le> n \<and> n \<le> 122) \<or>
         n \<in> set [170, 178, 179, 181, 185, 186, 188, 189, 190] \<or>
         (192 \<le> n \<and> n \<le> 214) \<or> (216 \<le> n \<and> n \<le> 246) \<or> 248 \<le> n)"

definition strip :: "string \<Rightarrow> string" where
  \<comment> \<open>\<^verbatim>\<open>s.strip()\<close>\<close>
  "strip s = rev (dropWhile is_space (rev (dropWhile is_space s)))"

definition strip_char :: "char \<Rightarrow> string \<Rightarrow> string" where
  \<comment> \<open>\<^verbatim>\<open>s.strip(d)\<close> for a single character\<close>
  "strip_char d s = rev (dropWhile (\<lambda>c. c = d) (rev (dropWhile (\<lambda>c. c = d) s)))"

fun words_from :: "string \<Rightarrow> string \<Rightarrow> string list" where
  "words_from w [] = (if w = [] then [] else [rev w])"
| "words_from w (c # cs) =
     (if is_space c then (if w = [] then words_from [] cs else rev w # words_from [] cs)
      else words_from (c # w) cs)"

definition split_ws :: "string \<Rightarrow> string list" where
  \<comment> \<open>\<^verbatim>\<open>s.split()\<close>: the maximal runs of non-whitespace characters, in order.
      The first argument of \<open>words_from\<close> is the word read so far, reversed.\<close>
  "split_ws s = words_from [] s"

fun join :: "string \<Rightarrow> string list \<Rightarrow> string" where
  \<comment> \<open>\<^verbatim>\<open>sep.join(xs)\<close>\<close>
  "join sep [] = []"
| "join sep [x] = x"
| "join sep (x # y # ys) = x @ sep @ join sep (y # ys)"

fun pieces_from :: "char \<Rightarrow> string \<Rightarrow> string \<Rightarrow> string list" where
  "pieces_from d p [] = [rev p]"
| "pieces_from d p (c # cs) =
     (if c = d then rev p # pieces_from d [] cs else pieces_from d (c # p) cs)"

definition split_on :: "char \<Rightarrow> string \<Rightarrow> string list" where
  \<comment> \<open>\<^verbatim>\<open>s.split(d)\<close> for a one-character separator: empty pieces are kept.\<close>
  "split_on d s = pieces_from d [] s"

fun str_nat :: "nat \<Rightarrow> string" where
  \<comment> \<open>\<^verbatim>\<open>str(n)\<close> for \<open>n \<ge> 0\<close>: the decimal digits, most significant first\<close>
  "str_nat n =
     (if n < 10 then [''0123456789'' ! n]
      else str_nat (n div 10) @ [''0123456789'' ! (n mod 10)])"

declare str_nat.simps [simp del]

definition str_int :: "int \<Rightarrow> string" where
  \<comment> \<open>\<^verbatim>\<open>str(i)\<close>\<close>
  "str_int i = (if i < 0 then CHR ''-'' # str_nat (nat (- i)) else str_nat (nat i))"

definition truthy :: "string option \<Rightarrow> bool" where
  \<comment> \<open>Python's truth value of an \<^verbatim>\<open>Optional[str]\<close>: neither \<^verbatim>\<open>None\<close> nor empty\<close>
  "truthy s \<longleftrightarrow> (case s of None \<Rightarrow> False | Some v \<Rightarrow> v \<noteq> [])"

section \<open>Chunking (\<^verbatim>\<open>services/chunking.py\<close>)\<close>

subsection \<open>Configuration and data\<close>

definition MAX_CHUNK_TOKENS :: nat where "MAX_CHUNK_TOKENS = 512"
definition MIN_CHUNK_TOKENS :: nat where "MIN_CHUNK_TOKENS = 50"

record ChunkMetadata =
  cm_chunk_id :: string
  cm_text :: string
  cm_chapter :: int
  cm_section :: string
  cm_subsection :: "string option"
  cm_url_anchor :: string
  cm_token_count :: nat
  cm_chunk_index :: nat
  cm_source_file :: string

record Section =
  sec_title :: string
  sec_level :: nat
  sec_content :: string
  sec_chapter :: int
  sec_section_id :: string
  sec_subsection_id :: "string option"
  sec_url_anchor :: string

text \<open>
  The tokenizer of the embedding model, the spaCy pipeline and the UUID generator are
  external. \<^verbatim>\<open>count_tokens\<close> is a parameter \<open>ct\<close> of type \<open>string \<Rightarrow> nat\<close>; the
  module-level \<^verbatim>\<open>nlp\<close> is a parameter of type \<open>(string \<Rightarrow> string list) option\<close>
  (\<open>None\<close> when the spaCy model is not installed, otherwise the function from a
  text to the texts of its sentences); \<^verbatim>\<open>str(uuid.uuid4())\<close> is a parameter
  \<open>uuid4\<close> giving the identifier of the \<open>k\<close>-th draw. Token counts, list positions
  and the token budgets are natural numbers.
\<close>

subsection \<open>URL anchors\<close>

function collapse_runs :: "(char \<Rightarrow> bool) \<Rightarrow> string \<Rightarrow> string" where
  \<comment> \<open>\<^verbatim>\<open>re.sub(r'[...]+', '-', s)\<close>: every maximal run of characters of the class
      becomes one hyphen\<close>
  "collapse_runs P [] = []"
| "collapse_runs P (c # cs) =
     (if P c then CHR ''-'' # collapse_runs P (dropWhile P cs) else c # collapse_runs P cs)"
  by pat_completeness auto
termination
  by (relation "measure (\<lambda>(P, s). length s)") (auto simp: less_Suc_eq_le length_dropWhile_le)

definition create_url_anchor :: "string \<Rightarrow> string" where
  "create_url_anchor ttl =
     (let anchor = strip (map lower_char ttl);
          anchor = filter (\<lambda>c. is_word_char c \<or> is_space c \<or> c = CHR ''-'') anchor;
          anchor = collapse_runs (\<lambda>c. is_space c \<or> c = CHR ''_'') anchor;
          anchor = collapse_runs (\<lambda>c. c = CHR ''-'') anchor
      in strip_char (CHR ''-'') anchor)"

subsection \<open>Section parsing\<close>

definition header_match :: "string \<Rightarrow> (nat \<times> string) option" where
  \<comment> \<open>\<^verbatim>\<open>re.match(r'^(#{1,6})\s+(.+)$', line)\<close> on a line without line feed: the number of
      hashes and \<^verbatim>\<open>group(2)\<close>. When only whitespace follows the hashes, the
      regex gives the last whitespace character to \<^verbatim>\<open>(.+)\<close>, so two are needed.\<close>
  "header_match line =
     (let hashes = takeWhile (\<lambda>c. c = CHR ''#'') line;
          rest = dropWhile (\<lambda>c. c = CHR ''#'') line;
          ws = takeWhile is_space rest;
          body = dropWhile is_space rest
      in if 1 \<le> length hashes \<and> length hashes \<le> 6 \<and> ws \<noteq> [] \<and> (body \<noteq> [] \<or> 2 \<le> length ws)
         then Some (length hashes, if body \<noteq> [] then body else [last ws])
         else None)"

definition new_section :: "int \<Rightarrow> (nat \<Rightarrow> nat) \<Rightarrow> nat \<Rightarrow> string \<Rightarrow> Section" where
  \<comment> \<open>the identifiers of a heading of depth \<open>lvl\<close>, from the counters after their update\<close>
  "new_section chap section_counters lvl ttl =
     (let (section_id, subsection_id) =
            (if lvl = 1 then (str_int chap, None)
             else if lvl = 2 then (str_int chap @ ''.'' @ str_nat (section_counters 2), None)
             else (str_int chap @ ''.'' @ str_nat (section_counters 2),
                   Some (str_int chap @ ''.'' @
                         join ''.'' (map (\<lambda>i. str_nat (section_counters i)) [2 ..< lvl + 1]))))
      in \<lparr>sec_title = ttl, sec_level = lvl, sec_content = [], sec_chapter = chap,
          sec_section_id = section_id, sec_subsection_id = subsection_id,
          sec_url_anchor = create_url_anchor ttl\<rparr>)"

definition save_section :: "Section list \<Rightarrow> Section option \<Rightarrow> string list \<Rightarrow> Section list" where
  \<comment> \<open>\<^verbatim>\<open>if current_section:\<close> set its content; append it when the content is not empty\<close>
  "save_section sections current_section current_content =
     (case current_section of
        None \<Rightarrow> sections
      | Some cur \<Rightarrow>
          (let body = strip (join [CHR 0x0A] current_content)
           in if body \<noteq> [] then sections @ [cur\<lparr>sec_content := body\<rparr>] else sections))"

type_synonym parse_state = "Section list \<times> Section option \<times> string list \<times> (nat \<Rightarrow> nat)"

fun parse_line :: "int \<Rightarrow> string \<Rightarrow> parse_state \<Rightarrow> parse_state" where
  "parse_line chap line (sections, current_section, current_content, section_counters) =
     (case header_match line of
        Some (lvl, g2) \<Rightarrow>
          (let sections = save_section sections current_section current_content;
               ttl = strip g2;
               section_counters = section_counters(lvl := section_counters lvl + 1);
               section_counters = fold (\<lambda>deeper c. c(deeper := 0)) [lvl + 1 ..< 7] section_counters
           in (sections, Some (new_section chap section_counters lvl ttl), [], section_counters))
      | None \<Rightarrow>
          (if current_section \<noteq> None
           then (sections, current_section, current_content @ [line], section_counters)
           else (sections, current_section, current_content, section_counters)))"

definition parse_lines :: "int \<Rightarrow> string list \<Rightarrow> parse_state \<Rightarrow> parse_state" where
  \<comment> \<open>the \<^verbatim>\<open>for line in lines\<close> loop\<close>
  "parse_lines chap lines st = fold (parse_line chap) lines st"

definition parse_markdown_sections :: "string \<Rightarrow> int \<Rightarrow> string \<Rightarrow> Section list" where
  "parse_markdown_sections markdown_text chap src =
     (let lines = split_on (CHR 0x0A) markdown_text;
          (sections, current_section, current_content, section_counters) =
             parse_lines chap lines ([], None, [], \<lambda>l. 0)
      in save_section sections current_section current_content)"

subsection \<open>Sentence splitting\<close>

definition is_terminator :: "char \<Rightarrow> bool" where
  "is_terminator c \<longleftrightarrow> c = CHR ''.'' \<or> c = CHR ''!'' \<or> c = CHR ''?''"

fun find_boundary :: "string \<Rightarrow> (string \<times> string) option" where
  "find_boundary (a # b # cs) =
     (if is_terminator a \<and> is_space b then Some ([a], dropWhile is_space cs)
      else map_option (\<lambda>(p, r). (a # p, r)) (find_boundary (b # cs)))"
| "find_boundary cs = None"

lemma find_boundary_shorter:
  "find_boundary s = Some (p, r) \<Longrightarrow> length r < length s"
proof (induction s arbitrary: p r rule: find_boundary.induct)
  case (1 a b cs)
  show ?case
  proof (cases "is_terminator a \<and> is_space b")
    case True
    with "1.prems" have "r = dropWhile is_space cs" by simp
    then show ?thesis
      using length_dropWhile_le [of is_space cs] by simp
  next
    case False
    with "1.prems" obtain p' where "find_boundary (b # cs) = Some (p', r)"
      by (auto split: prod.splits)
    with "1.IH" False show ?thesis by fastforce
  qed
qed simp_all

function regex_split_sentences :: "string \<Rightarrow> string list" where
  "regex_split_sentences s =
     (case find_boundary s of
        None \<Rightarrow> [s]
      | Some (p, r) \<Rightarrow> p # regex_split_sentences r)"
  by pat_completeness auto
termination
  by (relation "measure length") (auto dest: find_boundary_shorter)

declare regex_split_sentences.simps [simp del]

text \<open>
  \<open>regex_split_sentences\<close> is \<^verbatim>\<open>re.split(r'(?<=[.!?])\s+', text)\<close>: the leftmost
  match starts at the first whitespace character that follows a terminator and takes
  the whole run of whitespace; \<open>find_boundary\<close> returns the text before that match and
  the text after it. After a match the next character is not whitespace, so the scan
  restarts on the rest.
\<close>

definition sentences_of :: "(string \<Rightarrow> string list) option \<Rightarrow> string \<Rightarrow> string list" where
  "sentences_of nlp txt =
     (case nlp of None \<Rightarrow> regex_split_sentences txt | Some sents \<Rightarrow> sents txt)"

definition flush :: "string list \<Rightarrow> string list \<Rightarrow> string list" where
  \<comment> \<open>\<^verbatim>\<open>if buf: chunks.append(' '.join(buf))\<close>\<close>
  "flush chunks buf = (if buf \<noteq> [] then chunks @ [join '' '' buf] else chunks)"

fun word_loop :: "(string \<Rightarrow> nat) \<Rightarrow> nat \<Rightarrow> string list \<Rightarrow>
    string list \<times> string list \<times> nat \<Rightarrow> string list \<times> string list \<times> nat" where
  "word_loop ct max_tokens [] st = st"
| "word_loop ct max_tokens (word # ws) (chunks, temp_chunk, temp_tokens) =
     (let word_tokens = ct word in
      if temp_tokens + word_tokens > max_tokens
      then word_loop ct max_tokens ws (flush chunks temp_chunk, [word], word_tokens)
      else word_loop ct max_tokens ws (chunks, temp_chunk @ [word], temp_tokens + word_tokens))"

fun sentence_loop :: "(string \<Rightarrow> nat) \<Rightarrow> nat \<Rightarrow> string list \<Rightarrow>
    string list \<times> string list \<times> nat \<Rightarrow> string list \<times> string list \<times> nat" where
  "sentence_loop ct max_tokens [] st = st"
| "sentence_loop ct max_tokens (sentence # ss) (chunks, current_chunk, current_tokens) =
     (let sentence_tokens = ct sentence in
      if sentence_tokens > max_tokens then
        (let (chunks1, current_chunk1, current_tokens1) =
               (if current_chunk \<noteq> [] then (chunks @ [join '' '' current_chunk], [], 0)
                else (chunks, current_chunk, current_tokens));
             (chunks2, temp_chunk, temp_tokens) =
               word_loop ct max_tokens (split_ws sentence) (chunks1, [], 0)
         in sentence_loop ct max_tokens ss
              (flush chunks2 temp_chunk, current_chunk1, current_tokens1))
      else if current_tokens + sentence_tokens > max_tokens then
        sentence_loop ct max_tokens ss (flush chunks current_chunk, [sentence], sentence_tokens)
      else
        sentence_loop ct max_tokens ss
          (chunks, current_chunk @ [sentence], current_tokens + sentence_tokens))"

definition split_text_by_sentences ::
    "(string \<Rightarrow> string list) option \<Rightarrow> (string \<Rightarrow> nat) \<Rightarrow> string \<Rightarrow> nat \<Rightarrow> string list" where
  "split_text_by_sentences nlp ct txt max_tokens =
     (let (chunks, current_chunk, current_tokens) =
            sentence_loop ct max_tokens (sentences_of nlp txt) ([], [], 0)
      in flush chunks current_chunk)"

subsection \<open>Chunking a section\<close>

definition new_chunk ::
    "(nat \<Rightarrow> string) \<Rightarrow> nat \<Rightarrow> Section \<Rightarrow> string \<Rightarrow> string \<Rightarrow> nat \<Rightarrow> nat \<Rightarrow> ChunkMetadata" where
  \<comment> \<open>the \<^verbatim>\<open>ChunkMetadata(...)\<close> built for a section, with the \<open>k\<close>-th identifier drawn\<close>
  "new_chunk uuid4 k sec src txt tokens idx =
     \<lparr>cm_chunk_id = uuid4 k, cm_text = txt, cm_chapter = sec_chapter sec,
      cm_section = sec_section_id sec, cm_subsection = sec_subsection_id sec,
      cm_url_anchor = sec_url_anchor sec, cm_token_count = tokens, cm_chunk_index = idx,
      cm_source_file = src\<rparr>"

fun merge_loop :: "(string \<Rightarrow> nat) \<Rightarrow> (nat \<Rightarrow> string) \<Rightarrow> Section \<Rightarrow> string \<Rightarrow>
    (nat \<times> string) list \<Rightarrow> ChunkMetadata list \<Rightarrow> ChunkMetadata list" where
  "merge_loop ct uuid4 sec src [] chunks = chunks"
| "merge_loop ct uuid4 sec src ((idx, piece) # rest) chunks =
     (let tokens = ct piece in
      if tokens < MIN_CHUNK_TOKENS \<and> idx > 0 \<and> chunks \<noteq> [] \<and>
         ct (cm_text (last chunks) @ '' '' @ piece) \<le> MAX_CHUNK_TOKENS
      then
        (let prev_chunk = last chunks;
             merged_text = cm_text prev_chunk @ '' '' @ piece;
             merged_tokens = ct merged_text
         in merge_loop ct uuid4 sec src rest
              (butlast chunks @
               [prev_chunk\<lparr>cm_text := merged_text, cm_token_count := merged_tokens\<rparr>]))
      else
        merge_loop ct uuid4 sec src rest
          (chunks @ [new_chunk uuid4 (length chunks) sec src piece tokens idx]))"

text \<open>
  \<open>merge_loop\<close> is the \<^verbatim>\<open>for idx, chunk_text in enumerate(chunk_texts)\<close> loop of
  \<^verbatim>\<open>chunk_section\<close>; \<open>piece\<close> is the source's \<^verbatim>\<open>chunk_text\<close>. The merge updates the
  last element of \<^verbatim>\<open>chunks\<close> in place and continues; every other path appends a new
  chunk carrying \<^verbatim>\<open>chunk_index=idx\<close>.
\<close>

definition chunk_section ::
    "(string \<Rightarrow> string list) option \<Rightarrow> (string \<Rightarrow> nat) \<Rightarrow> (nat \<Rightarrow> string) \<Rightarrow>
     Section \<Rightarrow> string \<Rightarrow> ChunkMetadata list" where
  "chunk_section nlp ct uuid4 sec src =
     (let section_tokens = ct (sec_content sec) in
      if section_tokens \<le> MAX_CHUNK_TOKENS
      then [new_chunk uuid4 0 sec src (sec_content sec) section_tokens 0]
      else merge_loop ct uuid4 sec src
             (enumerate 0 (split_text_by_sentences nlp ct (sec_content sec) MAX_CHUNK_TOKENS)) [])"

section \<open>Search results and citations (\<^verbatim>\<open>vector_store.py\<close>, \<^verbatim>\<open>models/schemas.py\<close>)\<close>

text \<open>
  Scores and vector components are Python floats: a finite number, an infinity or
  NaN. The finite values are modelled as real numbers, which include every finite
  double (the two zeros are one value, as they are for every comparison). The
  comparisons are those of IEEE 754, where every comparison with NaN is false.
  Arithmetic on floats rounds and overflows, so it is not computed here: the
  products and sums that \<^verbatim>\<open>np.dot\<close> performs are a parameter. Exceptions are values
  of \<open>error\<close>.
\<close>

datatype pyfloat = Fin real | PosInf | NegInf | NaN

fun flt :: "pyfloat \<Rightarrow> pyfloat \<Rightarrow> bool" where
  \<comment> \<open>\<^verbatim>\<open>a < b\<close>\<close>
  "flt (Fin x) (Fin y) = (x < y)"
| "flt (Fin x) PosInf = True"
| "flt NegInf (Fin y) = True"
| "flt NegInf PosInf = True"
| "flt a b = False"

definition fle :: "pyfloat \<Rightarrow> pyfloat \<Rightarrow> bool" where
  \<comment> \<open>\<^verbatim>\<open>a <= b\<close>, which is also \<^verbatim>\<open>b >= a\<close>\<close>
  "fle a b \<longleftrightarrow> flt a b \<or> (a = b \<and> a \<noteq> NaN)"

definition float_value :: "pyfloat \<Rightarrow> real" where
  \<comment> \<open>the number that a finite float stands for\<close>
  "float_value a = (case a of Fin x \<Rightarrow> x | _ \<Rightarrow> 0)"

datatype error = ValidationError | ValueError | LLMError

record SearchResult =
  sr_chunk_id :: string
  sr_score :: pyfloat
  sr_text :: string
  sr_chapter :: int
  sr_section :: string
  sr_subsection :: "string option"
  sr_url_anchor :: string
  sr_metadata :: "(string \<times> nat) list"

record Citation =
  cit_chunk_id :: string
  cit_chapter :: int
  cit_section :: string
  cit_url_anchor :: string
  cit_relevance_score :: real
  cit_text_preview :: string
  cit_source :: string

definition citation_source :: "SearchResult \<Rightarrow> string" where
  "citation_source chunk =
     ''Chapter '' @ str_int (sr_chapter chunk) @ '', Section '' @ sr_section chunk @
     (case sr_subsection chunk of
        None \<Rightarrow> []
      | Some sub \<Rightarrow> if sub \<noteq> [] then '', Subsection '' @ sub else [])"

text \<open>
  A \<^verbatim>\<open>Citation\<close> exists only when its constructor has validated the fields:
  \<^verbatim>\<open>chapter >= 0\<close>, \<^verbatim>\<open>0.0 <= relevance_score <= 1.0\<close> and \<^verbatim>\<open>len(text_preview) <= 200\<close>.
  The two bounds on the score are float comparisons, which an infinity and NaN fail.
  So the \<^verbatim>\<open>relevance_score\<close> of a citation is a finite float between 0 and 1, and
  the record \<open>Citation\<close> holds it as the real number it stands for.
\<close>

definition citation_of :: "SearchResult \<Rightarrow> Citation" where
  \<comment> \<open>the fields that both loops of \<^verbatim>\<open>_extract_citations\<close> pass to \<^verbatim>\<open>Citation(...)\<close>\<close>
  "citation_of chunk =
     \<lparr>cit_chunk_id = sr_chunk_id chunk, cit_chapter = sr_chapter chunk,
      cit_section = sr_section chunk, cit_url_anchor = sr_url_anchor chunk,
      cit_relevance_score = float_value (sr_score chunk),
      cit_text_preview = take 200 (sr_text chunk),
      cit_source = citation_source chunk\<rparr>"

definition make_citation :: "SearchResult \<Rightarrow> error + Citation" where
  \<comment> \<open>the constructor call with its validation\<close>
  "make_citation chunk =
     (let c = citation_of chunk
      in if 0 \<le> cit_chapter c \<and> fle (Fin 0) (sr_score chunk) \<and> fle (sr_score chunk) (Fin 1) \<and>
            length (cit_text_preview c) \<le> 200
         then Inr c else Inl ValidationError)"

section \<open>Citation extraction (\<^verbatim>\<open>services/agent.py\<close>)\<close>

subsection \<open>The citation pattern\<close>

fun match_lit :: "string \<Rightarrow> string \<Rightarrow> string option" where
  \<comment> \<open>a lower-case literal matched at the start of the text under \<^verbatim>\<open>re.IGNORECASE\<close>;
      the result is the text after it\<close>
  "match_lit [] s = Some s"
| "match_lit (p # ps) [] = None"
| "match_lit (p # ps) (c # cs) = (if lower_char c = p then match_lit ps cs else None)"

definition match_section :: "string \<Rightarrow> (string \<times> string) option" where
  \<comment> \<open>the optional group \<^verbatim>\<open>(?:,\s*Section\s+([\d.]+))\<close>\<close>
  "match_section s =
     (case s of
        [] \<Rightarrow> None
      | c # t \<Rightarrow>
          if c \<noteq> CHR '','' then None
          else (case match_lit ''section'' (dropWhile is_space t) of
                  None \<Rightarrow> None
                | Some u \<Rightarrow>
                    (let v = dropWhile is_space u;
                         sec = takeWhile (\<lambda>c. is_digit c \<or> c = CHR ''.'') v;
                         w = dropWhile (\<lambda>c. is_digit c \<or> c = CHR ''.'') v
                     in if takeWhile is_space u = [] \<or> sec = [] then None else Some (sec, w))))"

definition close_bracket :: "string \<Rightarrow> string option" where
  "close_bracket s = (case s of [] \<Rightarrow> None | c # rest \<Rightarrow> if c = CHR '']'' then Some rest else None)"

definition match_marker :: "string \<Rightarrow> ((string \<times> string option) \<times> string) option" where
  \<comment> \<open>\<^verbatim>\<open>\[Chapter\s+(\d+)(?:,\s*Section\s+([\d.]+))?\]\<close> matched at the start of the text:
      the two groups and the text after the match. Every quantifier is followed by
      a character outside its class, so the greedy match is the only one.\<close>
  "match_marker s =
     (case match_lit ''[chapter'' s of
        None \<Rightarrow> None
      | Some s1 \<Rightarrow>
          (let s2 = dropWhile is_space s1;
               ds = takeWhile is_digit s2;
               s3 = dropWhile is_digit s2
           in if takeWhile is_space s1 = [] \<or> ds = [] then None
              else (case match_section s3 of
                      Some (sec, s4) \<Rightarrow>
                        (case close_bracket s4 of
                           Some rest \<Rightarrow> Some ((ds, Some sec), rest)
                         | None \<Rightarrow> map_option (Pair (ds, None)) (close_bracket s3))
                    | None \<Rightarrow> map_option (Pair (ds, None)) (close_bracket s3))))"

lemma match_lit_length: "match_lit p s = Some r \<Longrightarrow> length r + length p = length s"
  by (induction p s rule: match_lit.induct) (auto split: if_splits)

lemma close_bracket_length: "close_bracket s = Some r \<Longrightarrow> length r < length s"
  by (auto simp: close_bracket_def split: list.splits if_splits)

lemma match_section_length: "match_section s = Some (sec, r) \<Longrightarrow> length r < length s"
proof -
  assume a: "match_section s = Some (sec, r)"
  then obtain t where s: "s = CHR '','' # t"
    by (auto simp: match_section_def split: list.splits if_splits)
  from a s obtain u where u: "match_lit ''section'' (dropWhile is_space t) = Some u"
    by (auto simp: match_section_def split: option.splits)
  from a s u have r: "r = dropWhile (\<lambda>c. is_digit c \<or> c = CHR ''.'') (dropWhile is_space u)"
    by (auto simp: match_section_def Let_def split: if_splits)
  have "length r \<le> length u"
    unfolding r by (meson length_dropWhile_le order_trans)
  also have "\<dots> \<le> length (dropWhile is_space t)"
    using match_lit_length [OF u] by simp
  also have "\<dots> \<le> length t" by (rule length_dropWhile_le)
  finally show ?thesis by (simp add: s)
qed

lemma match_marker_length: "match_marker s = Some (m, r) \<Longrightarrow> length r < length s"
proof -
  assume a: "match_marker s = Some (m, r)"
  then obtain s1 where s1: "match_lit ''[chapter'' s = Some s1"
    by (auto simp: match_marker_def split: option.splits)
  define s3 where "s3 = dropWhile is_digit (dropWhile is_space s1)"
  have "length s3 \<le> length s1"
    unfolding s3_def by (meson length_dropWhile_le order_trans)
  moreover have "length s1 \<le> length s"
    using match_lit_length [OF s1] by simp
  moreover have "length r < length s3"
    using a s1 close_bracket_length match_section_length
    by (fastforce simp: match_marker_def Let_def s3_def split: option.splits if_splits)
  ultimately show ?thesis by simp
qed

function find_markers :: "string \<Rightarrow> (string \<times> string option) list" where
  \<comment> \<open>\<^verbatim>\<open>re.finditer(citation_pattern, answer, re.IGNORECASE)\<close>: the groups of the
      non-overlapping matches, from left to right\<close>
  "find_markers [] = []"
| "find_markers (c # cs) =
     (case match_marker (c # cs) of
        Some (m, rest) \<Rightarrow> m # find_markers rest
      | None \<Rightarrow> find_markers cs)"
  by pat_completeness auto
termination
  by (relation "measure length") (auto dest: match_marker_length)

declare find_markers.simps [simp del]

definition digits_value :: "string \<Rightarrow> int" where
  \<comment> \<open>the number that a string of decimal digits denotes\<close>
  "digits_value ds = foldl (\<lambda>n d. 10 * n + (int (of_char d) - 48)) 0 ds"

definition max_str_digits :: nat where
  \<comment> \<open>the interpreter's limit on the digits of a decimal string that \<^verbatim>\<open>int\<close> converts
      (\<^verbatim>\<open>sys.get_int_max_str_digits()\<close>); the program leaves it at its default\<close>
  "max_str_digits = 4300"

definition int_of_digits :: "string \<Rightarrow> error + int" where
  \<comment> \<open>\<^verbatim>\<open>int(s)\<close> for a string of decimal digits: a string with more digits than the
      limit, leading zeros included, raises \<^verbatim>\<open>ValueError\<close>\<close>
  "int_of_digits ds =
     (if max_str_digits < length ds then Inl ValueError else Inr (digits_value ds))"

subsection \<open>Binding markers to chunks\<close>

type_synonym cite_state = "Citation list \<times> (string \<times> int \<times> string) list"

fun cite_matching :: "int \<Rightarrow> string option \<Rightarrow> SearchResult list \<Rightarrow> cite_state \<Rightarrow>
    error + cite_state" where
  \<comment> \<open>the \<^verbatim>\<open>for chunk in chunks\<close> loop for one marker; the second component of the
      state is the set \<^verbatim>\<open>cited_chunks\<close>\<close>
  "cite_matching chapter_num section_id [] st = Inr st"
| "cite_matching chapter_num section_id (chunk # rest) (citations, cited_chunks) =
     (if sr_chapter chunk = chapter_num then
        (if truthy section_id \<and> Some (sr_section chunk) \<noteq> section_id
         then cite_matching chapter_num section_id rest (citations, cited_chunks)
         else
           (let chunk_key = (sr_chunk_id chunk, sr_chapter chunk, sr_section chunk) in
            if chunk_key \<in> set cited_chunks
            then cite_matching chapter_num section_id rest (citations, cited_chunks)
            else (case make_citation chunk of
                    Inl e \<Rightarrow> Inl e
                  | Inr citation \<Rightarrow>
                      cite_matching chapter_num section_id rest
                        (citations @ [citation], chunk_key # cited_chunks))))
      else cite_matching chapter_num section_id rest (citations, cited_chunks))"

fun cite_markers :: "(string \<times> string option) list \<Rightarrow> SearchResult list \<Rightarrow> cite_state \<Rightarrow>
    error + cite_state" where
  \<comment> \<open>the \<^verbatim>\<open>for match in matches\<close> loop\<close>
  "cite_markers [] chunks st = Inr st"
| "cite_markers ((g1, g2) # ms) chunks st =
     (case int_of_digits g1 of
        Inl e \<Rightarrow> Inl e
      | Inr chapter_num \<Rightarrow>
          (case cite_matching chapter_num g2 chunks st of
             Inl e \<Rightarrow> Inl e
           | Inr st' \<Rightarrow> cite_markers ms chunks st'))"

fun cite_top :: "SearchResult list \<Rightarrow> Citation list \<Rightarrow> error + Citation list" where
  \<comment> \<open>the fallback loop \<^verbatim>\<open>for chunk in chunks[:3]\<close>\<close>
  "cite_top [] citations = Inr citations"
| "cite_top (chunk # rest) citations =
     (case make_citation chunk of
        Inl e \<Rightarrow> Inl e
      | Inr citation \<Rightarrow> cite_top rest (citations @ [citation]))"

definition sort_citations :: "Citation list \<Rightarrow> Citation list" where
  \<comment> \<open>\<^verbatim>\<open>citations.sort(key=lambda c: c.relevance_score, reverse=True)\<close>: Python's sort is
      stable, also with \<^verbatim>\<open>reverse=True\<close>\<close>
  "sort_citations citations = sort_key (\<lambda>c. - cit_relevance_score c) citations"

definition emit_citations :: "string \<Rightarrow> SearchResult list \<Rightarrow> error + Citation list" where
  \<comment> \<open>\<^verbatim>\<open>_extract_citations\<close> up to the final sort: the list \<^verbatim>\<open>citations\<close> in the
      order of emission\<close>
  "emit_citations answer chunks =
     (case cite_markers (find_markers answer) chunks ([], []) of
        Inl e \<Rightarrow> Inl e
      | Inr (citations, cited_chunks) \<Rightarrow>
          if citations = [] \<and> chunks \<noteq> [] then cite_top (take 3 chunks) citations
          else Inr citations)"

definition extract_citations :: "string \<Rightarrow> SearchResult list \<Rightarrow> error + Citation list" where
  "extract_citations answer chunks =
     (case emit_citations answer chunks of
        Inl e \<Rightarrow> Inl e
      | Inr citations \<Rightarrow> Inr (sort_citations citations))"

definition marker_matches :: "string \<times> string option \<Rightarrow> SearchResult \<Rightarrow> bool" where
  \<comment> \<open>the test that \<open>cite_matching\<close> applies to a chunk for the groups of one marker\<close>
  "marker_matches m chunk \<longleftrightarrow>
     sr_chapter chunk = digits_value (fst m) \<and>
     \<not> (truthy (snd m) \<and> Some (sr_section chunk) \<noteq> snd m)"

subsection \<open>Answer generation\<close>

definition format_context :: "SearchResult list \<Rightarrow> string" where
  "format_context chunks =
     (if chunks = [] then ''No relevant information found in the textbook.''
      else join [CHR 0x0A]
             (map (\<lambda>(i, chunk).
                     ''[Source '' @ str_nat i @ ''] Chapter '' @ str_int (sr_chapter chunk) @
                     '', Section '' @ sr_section chunk @
                     (case sr_subsection chunk of
                        None \<Rightarrow> []
                      | Some sub \<Rightarrow> if sub \<noteq> [] then '', Subsection '' @ sub else []) @
                     [CHR 0x0A] @ sr_text chunk @ [CHR 0x0A])
                  (enumerate 1 chunks)))"

definition build_user_message :: "string \<Rightarrow> string \<Rightarrow> string \<Rightarrow> string" where
  "build_user_message query context mode =
     (if mode = ''selected-text'' then
        ''Based on the following selected text from the textbook, answer the question.'' @
        [CHR 0x0A, CHR 0x0A] @ ''Selected Text:'' @ [CHR 0x0A] @ context @ [CHR 0x0A, CHR 0x0A] @
        ''Question: '' @ query @ [CHR 0x0A, CHR 0x0A] @
        ''Answer the question using ONLY information from the selected text above. '' @
        ''If the answer is not in the selected text, say '' @
        [CHR 0x27] @ ''Information not found in the selected text.'' @ [CHR 0x27]
      else
        ''Based on the following excerpts from the textbook, answer the question.'' @
        [CHR 0x0A, CHR 0x0A] @ ''Context:'' @ [CHR 0x0A] @ context @ [CHR 0x0A, CHR 0x0A] @
        ''Question: '' @ query @ [CHR 0x0A, CHR 0x0A] @
        ''Provide a clear answer based on the context. '' @
        ''Always cite sources using [Chapter X, Section Y.Z] format. '' @
        ''If the answer is not in the context, say '' @
        [CHR 0x27] @ ''Information not found in the book.'' @ [CHR 0x27])"

text \<open>
  The language model is external: \<open>llm\<close> maps the list of (role, content) messages to
  the content of the first choice, or to an exception.
\<close>

definition generate_answer :: "((string \<times> string) list \<Rightarrow> error + string) \<Rightarrow> string \<Rightarrow>
    string \<Rightarrow> SearchResult list \<Rightarrow> string \<Rightarrow> error + (string \<times> Citation list)" where
  "generate_answer llm system_prompt query context_chunks mode =
     (let context_text = format_context context_chunks;
          messages = [(''system'', system_prompt),
                      (''user'', build_user_message query context_text mode)]
      in case llm messages of
           Inl e \<Rightarrow> Inl e
         | Inr reply \<Rightarrow>
             (let answer = strip reply in
              case extract_citations answer context_chunks of
                Inl e \<Rightarrow> Inl e
              | Inr citations \<Rightarrow> Inr (answer, citations)))"

section \<open>Selected-text queries (\<^verbatim>\<open>services/selected_text.py\<close>)\<close>

type_synonym vector = "pyfloat list"

record EphemeralChunk =
  ec_chunk_id :: string
  ec_text :: string
  ec_embedding :: vector
  ec_chunk_index :: nat

record EphemeralSearchResult =
  er_chunk_id :: string
  er_score :: pyfloat
  er_text :: string
  er_chunk_index :: nat

text \<open>
  Two behaviours of the run-time are parameters of \<open>search\<close>. The first, \<open>fdot\<close>, is the
  float that \<^verbatim>\<open>np.dot\<close> computes from two arrays of the same length, with the rounding
  and the overflow of its arithmetic. The second, \<open>unordered\<close>, is what \<^verbatim>\<open>list.sort\<close>
  leaves of a list that has a NaN among its keys: the comparisons are then not an
  order, and the result depends on the algorithm of the interpreter. Nothing is
  assumed about either. On keys without NaN the result of \<^verbatim>\<open>list.sort\<close> with
  \<^verbatim>\<open>reverse=True\<close> is determined: descending, elements with equal keys in their
  original order. \<open>insert_desc\<close> puts an element in front of a list in that order, using
  \<^verbatim>\<open><\<close> only, as the sort does.
\<close>

definition np_dot :: "(vector \<Rightarrow> vector \<Rightarrow> pyfloat) \<Rightarrow> vector \<Rightarrow> vector \<Rightarrow> error + pyfloat" where
  \<comment> \<open>\<^verbatim>\<open>float(np.dot(u, v))\<close> for two one-dimensional arrays: shapes that differ raise
      \<^verbatim>\<open>ValueError\<close>\<close>
  "np_dot fdot u v = (if length u = length v then Inr (fdot u v) else Inl ValueError)"

fun score_chunks :: "(vector \<Rightarrow> vector \<Rightarrow> pyfloat) \<Rightarrow> vector \<Rightarrow> EphemeralChunk list \<Rightarrow>
    error + (EphemeralChunk \<times> pyfloat) list" where
  \<comment> \<open>the loop that fills \<^verbatim>\<open>scores\<close>\<close>
  "score_chunks fdot query_vec [] = Inr []"
| "score_chunks fdot query_vec (chunk # rest) =
     (case np_dot fdot query_vec (ec_embedding chunk) of
        Inl e \<Rightarrow> Inl e
      | Inr similarity \<Rightarrow>
          (case score_chunks fdot query_vec rest of
             Inl e \<Rightarrow> Inl e
           | Inr scores \<Rightarrow> Inr ((chunk, similarity) # scores)))"

fun insert_desc :: "('a \<Rightarrow> pyfloat) \<Rightarrow> 'a \<Rightarrow> 'a list \<Rightarrow> 'a list" where
  "insert_desc key x [] = [x]"
| "insert_desc key x (y # ys) =
     (if flt (key x) (key y) then y # insert_desc key x ys else x # y # ys)"

definition list_sort_reverse :: "('a list \<Rightarrow> 'a list) \<Rightarrow> ('a \<Rightarrow> pyfloat) \<Rightarrow> 'a list \<Rightarrow> 'a list" where
  \<comment> \<open>\<^verbatim>\<open>xs.sort(key=key, reverse=True)\<close>\<close>
  "list_sort_reverse unordered key xs =
     (if NaN \<in> set (map key xs) then unordered xs else foldr (insert_desc key) xs [])"

definition slice_to :: "int \<Rightarrow> 'a list \<Rightarrow> 'a list" where
  \<comment> \<open>\<^verbatim>\<open>xs[:k]\<close>: a negative \<open>k\<close> counts from the end\<close>
  "slice_to k xs = (if 0 \<le> k then take (nat k) xs else take (length xs - nat (- k)) xs)"

definition search ::
    "((EphemeralChunk \<times> pyfloat) list \<Rightarrow> (EphemeralChunk \<times> pyfloat) list) \<Rightarrow>
     (vector \<Rightarrow> vector \<Rightarrow> pyfloat) \<Rightarrow> EphemeralChunk list \<Rightarrow> vector \<Rightarrow> int \<Rightarrow> pyfloat \<Rightarrow>
     error + EphemeralSearchResult list" where
  \<comment> \<open>\<^verbatim>\<open>EphemeralVectorStore.search\<close>; the store is its list \<^verbatim>\<open>self.chunks\<close>\<close>
  "search unordered fdot chunks query_embedding top_k score_threshold =
     (if chunks = [] then Inr []
      else case score_chunks fdot query_embedding chunks of
             Inl e \<Rightarrow> Inl e
           | Inr scores \<Rightarrow>
               (let scores = list_sort_reverse unordered snd scores
                in Inr (map (\<lambda>(chunk, score).
                               \<lparr>er_chunk_id = ec_chunk_id chunk, er_score = score,
                                er_text = ec_text chunk, er_chunk_index = ec_chunk_index chunk\<rparr>)
                          (filter (\<lambda>(chunk, score). fle score_threshold score)
                             (slice_to top_k scores)))))"

record Collaborators =
  env_nlp :: "(string \<Rightarrow> string list) option"
  env_count_tokens :: "string \<Rightarrow> nat"
  env_embed_texts :: "string list \<Rightarrow> vector list"
  env_embed_text :: "string \<Rightarrow> vector"
  env_dot :: "vector \<Rightarrow> vector \<Rightarrow> pyfloat"
  env_unordered :: "(EphemeralChunk \<times> pyfloat) list \<Rightarrow> (EphemeralChunk \<times> pyfloat) list"
  env_llm :: "(string \<times> string) list \<Rightarrow> error + string"
  env_system_prompt :: string

definition chunk_selected_text :: "Collaborators \<Rightarrow> nat \<Rightarrow> string \<Rightarrow> string list" where
  "chunk_selected_text env max_chunk_tokens txt =
     (if env_count_tokens env txt \<le> max_chunk_tokens then [txt]
      else split_text_by_sentences (env_nlp env) (env_count_tokens env) txt max_chunk_tokens)"

definition format_03d :: "nat \<Rightarrow> string" where
  \<comment> \<open>the format \<^verbatim>\<open>{i:03d}\<close>: padded with zeros to three digits\<close>
  "format_03d i = replicate (3 - length (str_nat i)) (CHR ''0'') @ str_nat i"

definition create_ephemeral_store :: "Collaborators \<Rightarrow> nat \<Rightarrow> string \<Rightarrow> EphemeralChunk list" where
  "create_ephemeral_store env max_chunk_tokens selected_text =
     (let text_chunks = chunk_selected_text env max_chunk_tokens selected_text;
          embeddings = env_embed_texts env text_chunks
      in map (\<lambda>(i, (txt, embedding)).
                \<lparr>ec_chunk_id = ''selected-'' @ format_03d i, ec_text = txt,
                 ec_embedding = embedding, ec_chunk_index = i\<rparr>)
           (enumerate 0 (zip text_chunks embeddings)))"

definition answer_query :: "Collaborators \<Rightarrow> nat \<Rightarrow> string \<Rightarrow> string \<Rightarrow> int \<Rightarrow>
    error + (string \<times> Citation list)" where
  "answer_query env max_chunk_tokens query selected_text top_k =
     (let ephemeral_store = create_ephemeral_store env max_chunk_tokens selected_text;
          query_embedding = env_embed_text env query
      in case search (env_unordered env) (env_dot env) ephemeral_store query_embedding top_k
                (Fin 0) of
           Inl e \<Rightarrow> Inl e
         | Inr search_results \<Rightarrow>
             if search_results = [] then Inr (''Information not found in the selected text.'', [])
             else
               (let agent_chunks =
                      map (\<lambda>result.
                             \<lparr>sr_chunk_id = er_chunk_id result, sr_score = er_score result,
                              sr_text = er_text result, sr_chapter = 0, sr_section = ''selected'',
                              sr_subsection = None, sr_url_anchor = [],
                              sr_metadata = [(''chunk_index'', er_chunk_index result)]\<rparr>)
                          search_results
                in case generate_answer (env_llm env) (env_system_prompt env) query agent_chunks
                          ''selected-text'' of
                     Inl e \<Rightarrow> Inl e
                   | Inr (answer, citations) \<Rightarrow>
                       Inr (answer,
                            filter (\<lambda>c. prefix ''selected-'' (cit_chunk_id c)) citations)))"

section \<open>Notions used to state the properties\<close>

text \<open>
  \<open>all_words\<close> lists the words of a list of texts, in order: two texts have the same
  words exactly when they are equal up to whitespace. \<open>merge_step\<close> is one iteration
  of \<open>merge_loop\<close>.
\<close>

definition all_words :: "string list \<Rightarrow> string list" where
  "all_words xs = concat (map split_ws xs)"

definition merge_step :: "(string \<Rightarrow> nat) \<Rightarrow> (nat \<Rightarrow> string) \<Rightarrow> Section \<Rightarrow> string \<Rightarrow>
    nat \<times> string \<Rightarrow> ChunkMetadata list \<Rightarrow> ChunkMetadata list" where
  "merge_step ct uuid4 sec src ip chunks =
     (if ct (snd ip) < MIN_CHUNK_TOKENS \<and> fst ip > 0 \<and> chunks \<noteq> [] \<and>
         ct (cm_text (last chunks) @ '' '' @ snd ip) \<le> MAX_CHUNK_TOKENS
      then butlast chunks @
           [(last chunks)\<lparr>cm_text := cm_text (last chunks) @ '' '' @ snd ip,
                          cm_token_count := ct (cm_text (last chunks) @ '' '' @ snd ip)\<rparr>]
      else chunks @ [new_chunk uuid4 (length chunks) sec src (snd ip) (ct (snd ip)) (fst ip)])"

text \<open>
  \<open>passage_ok\<close> is what \<open>merge_loop\<close> maintains for a passage \<open>p\<close> that follows the
  passage \<open>prev\<close>, with respect to the list \<open>pieces\<close> of split chunks: the token count
  is the count of the text, \<open>chunk_index\<close> is the position of the split chunk that
  opened the passage, and that split chunk is undersized only if merging it into
  \<open>prev\<close> would exceed the budget.
\<close>

definition passage_ok :: "(string \<Rightarrow> nat) \<Rightarrow> string list \<Rightarrow> ChunkMetadata option \<Rightarrow>
    ChunkMetadata \<Rightarrow> bool" where
  "passage_ok ct pieces prev p \<longleftrightarrow>
     cm_token_count p = ct (cm_text p) \<and>
     cm_chunk_index p < length pieces \<and>
     prefix (pieces ! cm_chunk_index p) (cm_text p) \<and>
     (case prev of
        None \<Rightarrow> True
      | Some q \<Rightarrow>
          ct (pieces ! cm_chunk_index p) < MIN_CHUNK_TOKENS \<longrightarrow>
          MAX_CHUNK_TOKENS < ct (cm_text q @ '' '' @ pieces ! cm_chunk_index p))"

fun passages_ok :: "(string \<Rightarrow> nat) \<Rightarrow> string list \<Rightarrow> ChunkMetadata option \<Rightarrow>
    ChunkMetadata list \<Rightarrow> bool" where
  "passages_ok ct pieces prev [] = True"
| "passages_ok ct pieces prev (p # rest) =
     (passage_ok ct pieces prev p \<and> passages_ok ct pieces (Some p) rest)"

definition last_of :: "ChunkMetadata option \<Rightarrow> ChunkMetadata list \<Rightarrow> ChunkMetadata option" where
  "last_of prev chunks = (if chunks = [] then prev else Some (last chunks))"

text \<open>
  A tokenizer is \<open>subadditive\<close> when joining texts with single spaces never yields
  more tokens than the texts have together: this is what the running totals of the
  split loops rely on.
\<close>

definition subadditive :: "(string \<Rightarrow> nat) \<Rightarrow> bool" where
  "subadditive ct \<longleftrightarrow> (\<forall>xs. ct (join '' '' xs) \<le> sum_list (map ct xs))"

text \<open>
  For the section identifiers: \<open>sections_of chap lines\<close> is what
  \<open>parse_markdown_sections\<close> returns for a document with these lines. A line is a
  \<open>title_line\<close> when it is a heading of depth 1, and \<open>blocks\<close> cuts the lines of a
  document in front of every title line: the first block has no title line, every
  other block starts with one and has no other. \<open>chapter_run False lines\<close> says that
  the headings of depth 1 come before every deeper heading, which holds in every block.
  \<open>sibling_id\<close> is the identifier that tells sections of depth 2 and more apart:
  \<open>section_id\<close> at depth 2, \<open>subsection_id\<close> below. \<open>level_id\<close> is that identifier as
  \<open>new_section\<close> computes it from the counters, and \<open>bump\<close> is the update of the
  counters at a heading. \<open>le_path c0 c d\<close> compares the counters of the depths 2 to
  \<open>d\<close> lexicographically: \<open>c0\<close> is \<open>c\<close> or comes before it. \<open>ids_inv\<close> is the invariant
  of the parsing loop: the identifiers given so far are distinct and were computed
  from counters that are not after the present ones. Two counter states \<open>agree\<close> when
  they are equal at the depths 2 to 6, the ones that identifiers are computed from.
  \<open>section_id_form\<close> is the shape of all \<open>section_id\<close> values.
\<close>

definition sections_of :: "int \<Rightarrow> string list \<Rightarrow> Section list" where
  "sections_of chap lines =
     (case parse_lines chap lines ([], None, [], \<lambda>l. 0) of
        (sections, cur, content, c) \<Rightarrow> save_section sections cur content)"

definition title_line :: "string \<Rightarrow> bool" where
  "title_line line = (case header_match line of None \<Rightarrow> False | Some (lvl, g2) \<Rightarrow> lvl = 1)"

fun add_line :: "string \<Rightarrow> string list list \<Rightarrow> string list list" where
  "add_line line [] = [[line]]"
| "add_line line (b # bs) = (if title_line line then [] # (line # b) # bs else (line # b) # bs)"

definition blocks :: "string list \<Rightarrow> string list list" where
  "blocks ls = foldr add_line ls [[]]"

definition agree :: "(nat \<Rightarrow> nat) \<Rightarrow> (nat \<Rightarrow> nat) \<Rightarrow> bool" where
  "agree c c' \<longleftrightarrow> (\<forall>i. 2 \<le> i \<and> i \<le> 6 \<longrightarrow> c i = c' i)"

fun chapter_run :: "bool \<Rightarrow> string list \<Rightarrow> bool" where
  "chapter_run seen [] = True"
| "chapter_run seen (line # ls) =
     (case header_match line of
        None \<Rightarrow> chapter_run seen ls
      | Some (lvl, g2) \<Rightarrow>
          if lvl = 1 then \<not> seen \<and> chapter_run seen ls else chapter_run True ls)"

definition sibling_id :: "Section \<Rightarrow> string option" where
  "sibling_id s = (if sec_level s = 2 then Some (sec_section_id s) else sec_subsection_id s)"

definition level_id :: "int \<Rightarrow> (nat \<Rightarrow> nat) \<Rightarrow> nat \<Rightarrow> string option" where
  "level_id chap c d =
     (if d = 2 then Some (str_int chap @ ''.'' @ str_nat (c 2))
      else Some (str_int chap @ ''.'' @ join ''.'' (map (\<lambda>i. str_nat (c i)) [2 ..< d + 1])))"

definition deep_keys :: "Section list \<Rightarrow> string option list" where
  "deep_keys secs = map sibling_id (filter (\<lambda>s. 2 \<le> sec_level s) secs)"

definition pending :: "Section option \<Rightarrow> Section list" where
  "pending cur = (case cur of None \<Rightarrow> [] | Some s \<Rightarrow> [s])"

definition le_path :: "(nat \<Rightarrow> nat) \<Rightarrow> (nat \<Rightarrow> nat) \<Rightarrow> nat \<Rightarrow> bool" where
  "le_path c0 c d \<longleftrightarrow>
     (\<forall>i. 2 \<le> i \<and> i \<le> d \<longrightarrow> c0 i = c i) \<or>
     (\<exists>j. 2 \<le> j \<and> j \<le> d \<and> c0 j < c j \<and> (\<forall>i. 2 \<le> i \<and> i < j \<longrightarrow> c0 i = c i))"

definition ids_inv :: "int \<Rightarrow> bool \<Rightarrow> parse_state \<Rightarrow> bool" where
  "ids_inv chap seen st =
     (case st of (sections, cur, content, c) \<Rightarrow>
        distinct (deep_keys (sections @ pending cur)) \<and>
        (\<forall>key\<in>set (deep_keys (sections @ pending cur)).
            \<exists>d c0. 2 \<le> d \<and> d \<le> 6 \<and> key = level_id chap c0 d \<and> le_path c0 c d) \<and>
        (\<not> seen \<longrightarrow> deep_keys (sections @ pending cur) = []))"

definition bump :: "nat \<Rightarrow> (nat \<Rightarrow> nat) \<Rightarrow> nat \<Rightarrow> nat" where
  "bump lvl c = (\<lambda>i. if lvl < i \<and> i < 7 then 0 else if i = lvl then c lvl + 1 else c i)"

definition section_id_form :: "int \<Rightarrow> Section \<Rightarrow> bool" where
  "section_id_form chap s \<longleftrightarrow>
     (if sec_level s = 1 then sec_section_id s = str_int chap
      else \<exists>k. sec_section_id s = str_int chap @ ''.'' @ str_nat k)"

section \<open>Sample collaborators and inputs\<close>

text \<open>
  The concrete inputs at which theorems are instantiated. \<open>char_tokens\<close> is a sample
  tokenizer: one token for each character that is not whitespace. On a text of
  one-letter words and punctuation marks it counts what a word-piece tokenizer counts.
\<close>

definition char_tokens :: "string \<Rightarrow> nat" where
  "char_tokens s = length (filter (\<lambda>c. \<not> is_space c) s)"

text \<open>
  \<open>sample_dot\<close> is the dot product of two vectors of finite numbers, without rounding,
  and NaN when a component is not finite. The components of the sample vectors are
  0, 1, -1 and fractions with a power of two below, for which the float arithmetic is exact.
  \<open>as_it_is\<close> leaves a list with a NaN key in the order it has.
\<close>

definition sample_dot :: "vector \<Rightarrow> vector \<Rightarrow> pyfloat" where
  "sample_dot u v =
     (if list_all (\<lambda>a. a \<noteq> NaN \<and> a \<noteq> PosInf \<and> a \<noteq> NegInf) (u @ v)
      then Fin (sum_list (map2 (*) (map float_value u) (map float_value v))) else NaN)"

definition as_it_is :: "(EphemeralChunk \<times> pyfloat) list \<Rightarrow> (EphemeralChunk \<times> pyfloat) list" where
  "as_it_is scores = scores"

definition demo_env :: Collaborators where
  "demo_env =
     \<lparr>env_nlp = None, env_count_tokens = char_tokens,
      env_embed_texts = map (\<lambda>t. [Fin 1, Fin 0]), env_embed_text = (\<lambda>q. [Fin (1/4), Fin (1/2)]),
      env_dot = sample_dot, env_unordered = as_it_is,
      env_llm = (\<lambda>messages. Inr ''It maps joint rates. ''),
      env_system_prompt = ''Answer from the book.''\<rparr>"

definition demo_store :: "EphemeralChunk list" where
  "demo_store =
     [\<lparr>ec_chunk_id = ''selected-000'', ec_text = ''Alpha.'', ec_embedding = [Fin 1, Fin 0],
       ec_chunk_index = 0\<rparr>,
      \<lparr>ec_chunk_id = ''selected-001'', ec_text = ''Beta.'', ec_embedding = [Fin 0, Fin 1],
       ec_chunk_index = 1\<rparr>,
      \<lparr>ec_chunk_id = ''selected-002'', ec_text = ''Gamma.'', ec_embedding = [Fin 0, Fin (- 1)],
       ec_chunk_index = 2\<rparr>]"

definition nan_store :: "EphemeralChunk list" where
  "nan_store =
     [\<lparr>ec_chunk_id = ''selected-000'', ec_text = ''Alpha.'', ec_embedding = [Fin (1/8)],
       ec_chunk_index = 0\<rparr>,
      \<lparr>ec_chunk_id = ''selected-001'', ec_text = ''Beta.'', ec_embedding = [NaN],
       ec_chunk_index = 1\<rparr>,
      \<lparr>ec_chunk_id = ''selected-002'', ec_text = ''Gamma.'', ec_embedding = [Fin (7/8)],
       ec_chunk_index = 2\<rparr>]"

definition twelve_sentences :: string where
  "twelve_sentences = ''A. B. C. D. E. F. G. H. I. J. K. L.''"

definition long_marker :: string where
  "long_marker = ''[Chapter '' @ replicate 4301 (CHR ''1'') @ '']''"

definition result_of :: "EphemeralChunk \<times> pyfloat \<Rightarrow> EphemeralSearchResult" where
  \<comment> \<open>the \<^verbatim>\<open>EphemeralSearchResult\<close> that \<open>search\<close> builds from a scored chunk\<close>
  "result_of p =
     \<lparr>er_chunk_id = ec_chunk_id (fst p), er_score = snd p,
      er_text = ec_text (fst p), er_chunk_index = ec_chunk_index (fst p)\<rparr>"

definition valid_hit :: "SearchResult \<Rightarrow> bool" where
  \<comment> \<open>the ranges the data model gives a search hit, which are the ranges the
      \<^verbatim>\<open>Citation\<close> class accepts: a chapter that is not negative and a score in [0, 1]\<close>
  "valid_hit chunk \<longleftrightarrow>
     0 \<le> sr_chapter chunk \<and> fle (Fin 0) (sr_score chunk) \<and> fle (sr_score chunk) (Fin 1)"

definition hit :: "string \<Rightarrow> real \<Rightarrow> int \<Rightarrow> string \<Rightarrow> SearchResult" where
  "hit i s c sec =
     \<lparr>sr_chunk_id = i, sr_score = Fin s, sr_text = ''Joint angles.'', sr_chapter = c,
      sr_section = sec, sr_subsection = None, sr_url_anchor = ''kinematics'', sr_metadata = []\<rparr>"

definition five_hits :: "SearchResult list" where
  "five_hits =
     [hit ''p1'' (9/10) 3 ''3.2'', hit ''p2'' (4/5) 3 ''3.1'', hit ''p3'' (4/5) 4 ''4.1'',
      hit ''p4'' (3/5) 5 ''5.1'', hit ''p5'' (1/2) 5 ''5.2'']"

text \<open>
  A section of three sentences for the sample tokenizer: 520 one-letter words (521
  tokens), then \<^verbatim>\<open>b b b b.\<close> (5 tokens), then 509 one-letter words (510 tokens). And a
  section whose content is one word of 600 characters without whitespace.
\<close>

definition a_words :: "nat \<Rightarrow> string list" where
  "a_words n = replicate n ''a'' @ [''a.'']"

definition a_sentence :: "nat \<Rightarrow> string" where
  "a_sentence n = join '' '' (a_words n)"

definition demo_content :: string where
  "demo_content = a_sentence 519 @ '' b b b b. '' @ a_sentence 508"

definition demo_section :: Section where
  "demo_section =
     \<lparr>sec_title = ''Inverse Kinematics'', sec_level = 2, sec_content = demo_content,
      sec_chapter = 3, sec_section_id = ''3.2'', sec_subsection_id = None,
      sec_url_anchor = ''inverse-kinematics''\<rparr>"

definition demo_uuid4 :: "nat \<Rightarrow> string" where
  "demo_uuid4 k = ''uuid-'' @ str_nat k"

definition demo_W1 :: string where
  "demo_W1 = join '' '' (replicate 512 ''a'')"

definition demo_chunks :: "string \<Rightarrow> ChunkMetadata list" where
  "demo_chunks src =
     [new_chunk demo_uuid4 0 demo_section src demo_W1 512 0,
      (new_chunk demo_uuid4 1 demo_section src (a_sentence 7) 9 1)
        \<lparr>cm_text := a_sentence 7 @ '' '' @ ''b b b b.'', cm_token_count := 14\<rparr>,
      new_chunk demo_uuid4 2 demo_section src (a_sentence 508) 510 3]"

definition hyphen_word :: string where
  "hyphen_word = concat (replicate 300 ''a-'')"

definition hyphen_section :: Section where
  "hyphen_section = demo_section\<lparr>sec_content := hyphen_word\<rparr>"

definition preamble_doc :: string where
  "preamble_doc = ''draft notes'' @ [CHR 0x0A] @ ''# Kinematics'' @ [CHR 0x0A] @ ''Joint angles.''"

definition sibling_doc :: string where
  "sibling_doc = ''## Kinematics'' @ [CHR 0x0A] @ ''Overview.'' @ [CHR 0x0A] @
                 ''### Forward'' @ [CHR 0x0A] @ ''Angles to pose.'' @ [CHR 0x0A] @
                 ''### Inverse'' @ [CHR 0x0A] @ ''Pose to angles.''"

definition two_title_doc :: string where
  "two_title_doc = ''# Part A'' @ [CHR 0x0A] @ ''## Forward'' @ [CHR 0x0A] @
                   ''Angles to pose.'' @ [CHR 0x0A] @ ''# Part B'' @ [CHR 0x0A] @
                   ''## Inverse'' @ [CHR 0x0A] @ ''Pose to angles.''"

definition two_part_doc :: string where
  "two_part_doc = ''# Statics'' @ [CHR 0x0A] @ ''## Forces'' @ [CHR 0x0A] @ ''Push.'' @ [CHR 0x0A] @
                  ''### Torque'' @ [CHR 0x0A] @ ''Twist.'' @ [CHR 0x0A] @
                  ''# Dynamics'' @ [CHR 0x0A] @ ''## Motion'' @ [CHR 0x0A] @ ''Move.'' @ [CHR 0x0A] @
                  ''## Energy'' @ [CHR 0x0A] @ ''Work.''"

section \<open>Chunking\<close>

subsection \<open>Words are preserved\<close>

lemma all_words_Nil [simp]: "all_words [] = []"
  by (simp add: all_words_def)

lemma all_words_Cons [simp]: "all_words (x # xs) = split_ws x @ all_words xs"
  by (simp add: all_words_def)

lemma all_words_append [simp]: "all_words (xs @ ys) = all_words xs @ all_words ys"
  by (simp add: all_words_def)

lemma words_from_space:
  "is_space c \<Longrightarrow> words_from w (xs @ c # ys) = words_from w xs @ words_from [] ys"
  by (induction xs arbitrary: w) simp_all

lemma words_from_leading:
  "\<forall>c\<in>set ws. is_space c \<Longrightarrow> words_from [] (ws @ ys) = words_from [] ys"
  by (induction ws) simp_all

lemma split_ws_gap:
  assumes "ws \<noteq> []" "\<forall>c\<in>set ws. is_space c"
  shows "split_ws (xs @ ws @ ys) = split_ws xs @ split_ws ys"
proof -
  from assms obtain c ws' where ws: "ws = c # ws'" "is_space c" "\<forall>c\<in>set ws'. is_space c"
    by (cases ws) auto
  then show ?thesis
    by (simp add: split_ws_def words_from_space words_from_leading)
qed

lemma split_ws_sp: "split_ws (xs @ '' '' @ ys) = split_ws xs @ split_ws ys"
  by (rule split_ws_gap) (simp_all add: is_space_def)

lemma split_ws_sp_Cons: "split_ws (xs @ CHR '' '' # ys) = split_ws xs @ split_ws ys"
  using split_ws_sp [of xs ys] by simp

lemma join_Cons: "join sep (x # xs) = x @ concat (map (\<lambda>y. sep @ y) xs)"
  by (induction xs arbitrary: x) simp_all

lemma split_ws_join_Cons:
  "split_ws (x @ concat (map (\<lambda>y. '' '' @ y) xs)) = split_ws x @ all_words xs"
proof (induction xs arbitrary: x)
  case Nil
  then show ?case by simp
next
  case (Cons y ys)
  have "split_ws (x @ concat (map (\<lambda>y. '' '' @ y) (y # ys))) =
        split_ws (x @ '' '' @ (y @ concat (map (\<lambda>y. '' '' @ y) ys)))"
    by simp
  also have "\<dots> = split_ws x @ split_ws (y @ concat (map (\<lambda>y. '' '' @ y) ys))"
    by (rule split_ws_sp)
  also have "split_ws (y @ concat (map (\<lambda>y. '' '' @ y) ys)) = split_ws y @ all_words ys"
    by (rule Cons.IH)
  finally show ?case by (simp only: all_words_Cons)
qed

lemma split_ws_Nil [simp]: "split_ws [] = []"
  by (simp add: split_ws_def)

lemma split_ws_join: "split_ws (join '' '' xs) = all_words xs"
proof (cases xs)
  case Nil
  then show ?thesis by simp
next
  case (Cons x xs')
  then show ?thesis by (simp only: join_Cons split_ws_join_Cons all_words_Cons)
qed



lemma words_from_plain:
  "\<forall>c\<in>set s. \<not> is_space c \<Longrightarrow> words_from w s = (if w = [] \<and> s = [] then [] else [rev w @ s])"
proof (induction s arbitrary: w)
  case Nil
  then show ?case by simp
next
  case (Cons c s)
  then have "words_from (c # w) s = [rev (c # w) @ s]" by simp
  with Cons.prems show ?case by simp
qed

lemma split_ws_word: "w \<noteq> [] \<Longrightarrow> \<forall>c\<in>set w. \<not> is_space c \<Longrightarrow> split_ws w = [w]"
  by (simp add: split_ws_def words_from_plain)

lemma words_from_are_words:
  "x \<in> set (words_from w s) \<Longrightarrow> \<forall>c\<in>set w. \<not> is_space c \<Longrightarrow>
   x \<noteq> [] \<and> (\<forall>c\<in>set x. \<not> is_space c)"
proof (induction s arbitrary: w)
  case Nil
  then show ?case by (auto split: if_splits)
next
  case (Cons c s)
  show ?case
  proof (cases "is_space c")
    case True
    with Cons.prems have "x = rev w \<and> w \<noteq> [] \<or> x \<in> set (words_from [] s)"
      by (auto split: if_splits)
    then show ?thesis
    proof
      assume "x = rev w \<and> w \<noteq> []"
      with Cons.prems(2) show ?thesis by auto
    next
      assume "x \<in> set (words_from [] s)"
      then show ?thesis by (rule Cons.IH) simp
    qed
  next
    case False
    with Cons.prems have "x \<in> set (words_from (c # w) s)" by simp
    moreover have "\<forall>d\<in>set (c # w). \<not> is_space d"
      using False Cons.prems(2) by simp
    ultimately show ?thesis by (rule Cons.IH)
  qed
qed

lemma split_ws_are_words: "x \<in> set (split_ws s) \<Longrightarrow> split_ws x = [x]"
proof -
  assume "x \<in> set (split_ws s)"
  then have "x \<in> set (words_from [] s)" by (simp add: split_ws_def)
  from words_from_are_words [OF this] have "x \<noteq> []" "\<forall>c\<in>set x. \<not> is_space c" by simp_all
  then show ?thesis by (rule split_ws_word)
qed

lemma all_words_of_words: "\<forall>x\<in>set xs. split_ws x = [x] \<Longrightarrow> all_words xs = xs"
  by (induction xs) simp_all

lemma split_ws_idem: "all_words (split_ws s) = split_ws s"
  by (rule all_words_of_words) (simp add: split_ws_are_words)

lemma all_words_flush: "all_words (flush chunks buf) = all_words chunks @ all_words buf"
  by (cases "buf = []") (simp_all add: flush_def split_ws_join)


lemma find_boundary_parts:
  "find_boundary s = Some (p, r) \<Longrightarrow>
   \<exists>ws. s = p @ ws @ r \<and> ws \<noteq> [] \<and> (\<forall>c\<in>set ws. is_space c)"
proof (induction s arbitrary: p r rule: find_boundary.induct)
  case (1 a b cs)
  show ?case
  proof (cases "is_terminator a \<and> is_space b")
    case True
    with "1.prems" have "p = [a]" "r = dropWhile is_space cs" by simp_all
    with True have "a # b # cs = p @ (b # takeWhile is_space cs) @ r \<and>
        b # takeWhile is_space cs \<noteq> [] \<and> (\<forall>c\<in>set (b # takeWhile is_space cs). is_space c)"
      by (auto dest: set_takeWhileD)
    then show ?thesis by blast
  next
    case False
    with "1.prems" obtain p' where p': "find_boundary (b # cs) = Some (p', r)" "p = a # p'"
      by (auto split: prod.splits)
    with "1.IH" [OF False p'(1)] show ?thesis by auto
  qed
qed simp_all

lemma regex_split_words: "all_words (regex_split_sentences s) = split_ws s"
proof (induction s rule: regex_split_sentences.induct)
  case (1 s)
  show ?case
  proof (cases "find_boundary s")
    case None
    then show ?thesis
      by (simp add: regex_split_sentences.simps [of s])
  next
    case (Some pr)
    obtain p r where pr: "pr = (p, r)" by (cases pr)
    from find_boundary_parts [of s p r] Some pr obtain ws where
      "s = p @ ws @ r" "ws \<noteq> []" "\<forall>c\<in>set ws. is_space c" by auto
    then have "split_ws s = split_ws p @ split_ws r"
      by (simp add: split_ws_gap)
    moreover have "all_words (regex_split_sentences r) = split_ws r"
      using "1.IH" Some pr by simp
    ultimately show ?thesis
      using Some pr by (simp add: regex_split_sentences.simps [of s])
  qed
qed

lemma word_loop_words:
  "word_loop ct mx ws (chunks, temp, n) = (chunks', temp', n') \<Longrightarrow>
   all_words (flush chunks' temp') = all_words chunks @ all_words temp @ all_words ws"
proof (induction ws arbitrary: chunks temp n)
  case Nil
  then show ?case by (auto simp: all_words_flush)
next
  case (Cons w ws)
  show ?case
  proof (cases "n + ct w > mx")
    case True
    with Cons.prems have "word_loop ct mx ws (flush chunks temp, [w], ct w) = (chunks', temp', n')"
      by simp
    from Cons.IH [OF this] show ?thesis
      by (simp add: all_words_flush)
  next
    case False
    with Cons.prems have "word_loop ct mx ws (chunks, temp @ [w], n + ct w) = (chunks', temp', n')"
      by simp
    from Cons.IH [OF this] show ?thesis
      by simp
  qed
qed


lemma sentence_loop_words:
  "sentence_loop ct mx ss (chunks, cur, n) = (chunks', cur', n') \<Longrightarrow>
   all_words (flush chunks' cur') = all_words chunks @ all_words cur @ all_words ss"
proof (induction ss arbitrary: chunks cur n)
  case Nil
  then show ?case by (auto simp: all_words_flush)
next
  case (Cons s ss)
  consider (long) "ct s > mx" | (full) "\<not> ct s > mx" "n + ct s > mx"
    | (fits) "\<not> ct s > mx" "\<not> n + ct s > mx" by blast
  then show ?case
  proof cases
    case long
    define chunks1 where "chunks1 = (if cur \<noteq> [] then chunks @ [join '' '' cur] else chunks)"
    define cur1 where "cur1 = (if cur \<noteq> [] then [] else cur)"
    define n1 where "n1 = (if cur \<noteq> [] then 0 else n)"
    obtain chunks2 temp tn where
      wl: "word_loop ct mx (split_ws s) (chunks1, [], 0) = (chunks2, temp, tn)"
      by (cases "word_loop ct mx (split_ws s) (chunks1, [], 0)") auto
    have c1: "all_words chunks1 = all_words chunks @ all_words cur"
      by (simp add: chunks1_def split_ws_join)
    have cur1: "cur1 = []"
      by (simp add: cur1_def)
    from long Cons.prems wl have
      "sentence_loop ct mx ss (flush chunks2 temp, cur1, n1) = (chunks', cur', n')"
      by (simp add: chunks1_def cur1_def n1_def split: if_splits)
    from Cons.IH [OF this] have
      "all_words (flush chunks' cur') = all_words (flush chunks2 temp) @ all_words ss"
      by (simp add: cur1)
    also have "all_words (flush chunks2 temp) = all_words chunks1 @ all_words (split_ws s)"
      using word_loop_words [OF wl] by simp
    finally show ?thesis
      by (simp add: c1 split_ws_idem)
  next
    case full
    with Cons.prems have
      "sentence_loop ct mx ss (flush chunks cur, [s], ct s) = (chunks', cur', n')" by simp
    from Cons.IH [OF this] show ?thesis
      by (simp add: all_words_flush)
  next
    case fits
    with Cons.prems have
      "sentence_loop ct mx ss (chunks, cur @ [s], n + ct s) = (chunks', cur', n')" by simp
    from Cons.IH [OF this] show ?thesis
      by simp
  qed
qed

lemma split_text_words:
  "all_words (split_text_by_sentences nlp ct txt mx) = all_words (sentences_of nlp txt)"
proof -
  obtain chunks cur n where
    sl: "sentence_loop ct mx (sentences_of nlp txt) ([], [], 0) = (chunks, cur, n)"
    by (cases "sentence_loop ct mx (sentences_of nlp txt) ([], [], 0)") auto
  from sentence_loop_words [OF sl] show ?thesis
    by (simp add: split_text_by_sentences_def sl)
qed


lemma merge_loop_step:
  "merge_loop ct uuid4 sec src (ip # rest) chunks =
   merge_loop ct uuid4 sec src rest (merge_step ct uuid4 sec src ip chunks)"
  by (cases ip) (simp add: merge_step_def Let_def)

lemma merge_step_words:
  "all_words (map cm_text (merge_step ct uuid4 sec src ip chunks)) =
   all_words (map cm_text chunks) @ split_ws (snd ip)"
proof (cases "ct (snd ip) < MIN_CHUNK_TOKENS \<and> fst ip > 0 \<and> chunks \<noteq> [] \<and>
         ct (cm_text (last chunks) @ '' '' @ snd ip) \<le> MAX_CHUNK_TOKENS")
  case True
  then obtain bs l where bl: "chunks = bs @ [l]"
    by (cases chunks rule: rev_cases) auto
  have "merge_step ct uuid4 sec src ip chunks =
        bs @ [l\<lparr>cm_text := cm_text l @ '' '' @ snd ip,
                  cm_token_count := ct (cm_text l @ '' '' @ snd ip)\<rparr>]"
    using True by (simp only: merge_step_def if_True) (simp add: bl)
  then show ?thesis
    by (simp add: bl split_ws_sp_Cons)
next
  case False
  then have "merge_step ct uuid4 sec src ip chunks =
             chunks @ [new_chunk uuid4 (length chunks) sec src (snd ip) (ct (snd ip)) (fst ip)]"
    by (simp only: merge_step_def if_False)
  then show ?thesis
    by (simp add: new_chunk_def)
qed

lemma merge_loop_words:
  "all_words (map cm_text (merge_loop ct uuid4 sec src ps chunks)) =
   all_words (map cm_text chunks) @ all_words (map snd ps)"
proof (induction ps arbitrary: chunks)
  case Nil
  then show ?case by simp
next
  case (Cons ip ps)
  show ?case
    by (simp only: merge_loop_step Cons.IH merge_step_words list.simps all_words_Cons append_assoc)
qed


lemma concat_words_from:
  "concat (words_from w s) = rev w @ filter (\<lambda>c. \<not> is_space c) s"
  by (induction s arbitrary: w) simp_all

lemma concat_split_ws: "concat (split_ws s) = filter (\<lambda>c. \<not> is_space c) s"
  by (simp add: split_ws_def concat_words_from)

lemma concat_all_words:
  "concat (all_words xs) = filter (\<lambda>c. \<not> is_space c) (concat xs)"
  by (induction xs) (simp_all add: concat_split_ws)

lemma sentences_of_words:
  assumes "\<forall>f. nlp = Some f \<longrightarrow> all_words (f txt) = split_ws txt"
  shows "all_words (sentences_of nlp txt) = split_ws txt"
  using assms by (cases nlp) (simp_all add: sentences_of_def regex_split_words)

lemma chunk_section_words:
  assumes "\<forall>f. nlp = Some f \<longrightarrow> all_words (f (sec_content sec)) = split_ws (sec_content sec)"
  shows "all_words (map cm_text (chunk_section nlp ct uuid4 sec src)) = split_ws (sec_content sec)"
proof (cases "ct (sec_content sec) \<le> MAX_CHUNK_TOKENS")
  case True
  then show ?thesis
    by (simp add: chunk_section_def new_chunk_def)
next
  case False
  have "map snd (enumerate 0 (split_text_by_sentences nlp ct (sec_content sec) MAX_CHUNK_TOKENS)) =
        split_text_by_sentences nlp ct (sec_content sec) MAX_CHUNK_TOKENS"
    by (simp add: enumerate_eq_zip)
  with False show ?thesis
    by (simp add: chunk_section_def merge_loop_words split_text_words
        sentences_of_words [OF assms])
qed

text \<open>
  Claim C2. The sentence splitter of spaCy is external: when it is used, it is assumed
  to return sentences that carry the words of the text, as the regular expression of
  the fallback provably does. Then the texts of the passages, in output order, carry
  exactly the words of the section content, in order: joined by spaces they are equal
  to the content up to whitespace, and concatenated they have the same characters
  outside whitespace. At least one passage is produced, provided the tokenizer counts
  at most \<open>MAX_CHUNK_TOKENS\<close> tokens in a text without words (it counts none).
\<close>

theorem chunk_section_preserves_content:
  assumes sents: "\<forall>f. nlp = Some f \<longrightarrow>
                    all_words (f (sec_content sec)) = split_ws (sec_content sec)"
      and blank: "split_ws (sec_content sec) = [] \<longrightarrow> ct (sec_content sec) \<le> MAX_CHUNK_TOKENS"
  shows "split_ws (join '' '' (map cm_text (chunk_section nlp ct uuid4 sec src))) =
           split_ws (sec_content sec) \<and>
         filter (\<lambda>c. \<not> is_space c) (concat (map cm_text (chunk_section nlp ct uuid4 sec src))) =
           filter (\<lambda>c. \<not> is_space c) (sec_content sec) \<and>
         chunk_section nlp ct uuid4 sec src \<noteq> []"
proof -
  have w: "all_words (map cm_text (chunk_section nlp ct uuid4 sec src)) = split_ws (sec_content sec)"
    by (rule chunk_section_words [OF sents])
  have "concat (all_words (map cm_text (chunk_section nlp ct uuid4 sec src))) =
        concat (split_ws (sec_content sec))"
    by (simp only: w)
  then have chars: "filter (\<lambda>c. \<not> is_space c) (concat (map cm_text (chunk_section nlp ct uuid4 sec src))) =
           filter (\<lambda>c. \<not> is_space c) (sec_content sec)"
    by (simp only: concat_all_words concat_split_ws)
  have ne: "chunk_section nlp ct uuid4 sec src \<noteq> []"
  proof (cases "split_ws (sec_content sec) = []")
    case True
    with blank show ?thesis
      by (simp add: chunk_section_def)
  next
    case False
    show ?thesis
    proof
      assume "chunk_section nlp ct uuid4 sec src = []"
      with w have "split_ws (sec_content sec) = []" by simp
      with False show False by simp
    qed
  qed
  from w chars ne show ?thesis
    by (simp only: split_ws_join simp_thms)
qed

subsection \<open>The sample section\<close>

lemma char_tokens_append [simp]: "char_tokens (x @ y) = char_tokens x + char_tokens y"
  by (simp add: char_tokens_def)

lemma char_tokens_Nil [simp]: "char_tokens [] = 0"
  by (simp add: char_tokens_def)

lemma char_tokens_join_Cons:
  "char_tokens (x @ concat (map (\<lambda>y. '' '' @ y) xs)) = char_tokens x + sum_list (map char_tokens xs)"
  by (induction xs arbitrary: x) (simp_all add: char_tokens_def is_space_def)

lemma char_tokens_join: "char_tokens (join '' '' xs) = sum_list (map char_tokens xs)"
proof (cases xs)
  case Nil
  then show ?thesis by simp
next
  case (Cons x xs')
  then show ?thesis by (simp only: join_Cons char_tokens_join_Cons list.simps sum_list.Cons)
qed

lemma char_tokens_a [simp]: "char_tokens ''a'' = 1" "char_tokens ''a.'' = 2"
  by (simp_all add: char_tokens_def is_space_def)

lemma char_tokens_a_sentence [simp]: "char_tokens (a_sentence n) = n + 2"
  by (simp add: a_sentence_def a_words_def char_tokens_join sum_list_replicate)

lemma a_sentence_0: "a_sentence 0 = ''a.''"
  by (simp add: a_sentence_def a_words_def)

lemma join_Cons_nonempty: "ys \<noteq> [] \<Longrightarrow> join sep (x # ys) = x @ sep @ join sep ys"
  by (cases ys) simp_all

lemma a_sentence_Suc: "a_sentence (Suc n) = ''a '' @ a_sentence n"
proof -
  have "a_words (Suc n) = ''a'' # a_words n" "a_words n \<noteq> []"
    by (simp_all add: a_words_def)
  then show ?thesis
    by (simp add: a_sentence_def join_Cons_nonempty)
qed

lemma split_ws_a_sentence: "split_ws (a_sentence n) = a_words n"
proof -
  have "\<forall>x\<in>set (a_words n). split_ws x = [x]"
    by (auto simp: a_words_def split_ws_def is_space_def)
  then show ?thesis
    unfolding a_sentence_def split_ws_join by (rule all_words_of_words)
qed

lemma find_boundary_a_step:
  "find_boundary (''a '' @ s) = map_option (\<lambda>(p, r). (''a '' @ p, r)) (find_boundary s)"
proof (cases s)
  case Nil
  then show ?thesis by (simp add: is_terminator_def)
next
  case (Cons c s')
  then show ?thesis
    by (cases "find_boundary (c # s')") (auto simp: is_terminator_def)
qed

lemma find_boundary_a_sentence: "find_boundary (a_sentence n) = None"
proof (induction n)
  case 0
  then show ?case by (simp add: a_sentence_0 is_terminator_def is_space_def)
next
  case (Suc n)
  then show ?case by (simp only: a_sentence_Suc find_boundary_a_step option.map)
qed

lemma find_boundary_after_a_sentence:
  "is_space c \<Longrightarrow>
   find_boundary (a_sentence n @ c # rest) = Some (a_sentence n, dropWhile is_space rest)"
proof (induction n)
  case 0
  then show ?case by (simp add: a_sentence_0 is_terminator_def)
next
  case (Suc n)
  have "find_boundary (a_sentence (Suc n) @ c # rest) =
        find_boundary (''a '' @ (a_sentence n @ c # rest))"
    by (simp add: a_sentence_Suc)
  also have "\<dots> = Some (''a '' @ a_sentence n, dropWhile is_space rest)"
    by (simp only: find_boundary_a_step Suc option.map prod.case)
  finally show ?case by (simp only: a_sentence_Suc)
qed

lemma a_sentence_head: "\<exists>t. a_sentence n = CHR ''a'' # t"
  by (cases n) (simp_all add: a_sentence_0 a_sentence_Suc)

lemma dropWhile_a_sentence: "dropWhile is_space (a_sentence n @ s) = a_sentence n @ s"
proof -
  obtain t where "a_sentence n = CHR ''a'' # t" using a_sentence_head by blast
  then show ?thesis by (simp add: is_space_def)
qed

lemma demo_sentences:
  "regex_split_sentences demo_content = [a_sentence 519, ''b b b b.'', a_sentence 508]"
proof -
  have 1: "find_boundary demo_content = Some (a_sentence 519, ''b b b b. '' @ a_sentence 508)"
    using find_boundary_after_a_sentence [of "CHR '' ''" 519 "''b b b b. '' @ a_sentence 508"]
    by (simp add: demo_content_def is_space_def)
  have "find_boundary (''. '' @ a_sentence 508) = Some (''.'', a_sentence 508)"
    using dropWhile_a_sentence [of 508 "[]"] by (simp add: is_terminator_def is_space_def)
  then have 2: "find_boundary (''b b b b. '' @ a_sentence 508) = Some (''b b b b.'', a_sentence 508)"
    by (simp add: is_terminator_def is_space_def)
  have 3: "regex_split_sentences (a_sentence 508) = [a_sentence 508]"
    by (simp add: regex_split_sentences.simps [of "a_sentence 508"] find_boundary_a_sentence)
  have "regex_split_sentences (''b b b b. '' @ a_sentence 508) = [''b b b b.'', a_sentence 508]"
    by (subst regex_split_sentences.simps) (simp only: 2 3 option.case prod.case)
  then show ?thesis
    by (subst regex_split_sentences.simps) (simp only: 1 option.case prod.case)
qed

lemma char_tokens_demo_W1 [simp]: "char_tokens demo_W1 = 512"
  by (simp add: demo_W1_def char_tokens_join sum_list_replicate)

lemma char_tokens_b [simp]: "char_tokens ''b b b b.'' = 5"
  by (simp add: char_tokens_def is_space_def)

lemma word_loop_replicate:
  "n + k * ct w \<le> mx \<Longrightarrow>
   word_loop ct mx (replicate k w @ rest) (chunks, temp, n) =
   word_loop ct mx rest (chunks, temp @ replicate k w, n + k * ct w)"
proof (induction k arbitrary: temp n)
  case 0
  then show ?case by simp
next
  case (Suc k)
  from Suc.prems have le: "\<not> n + ct w > mx" "(n + ct w) + k * ct w \<le> mx" by simp_all
  have "word_loop ct mx (replicate (Suc k) w @ rest) (chunks, temp, n) =
        word_loop ct mx (replicate k w @ rest) (chunks, temp @ [w], n + ct w)"
    using le(1) by simp
  also have "\<dots> = word_loop ct mx rest (chunks, (temp @ [w]) @ replicate k w, (n + ct w) + k * ct w)"
    by (rule Suc.IH [OF le(2)])
  finally show ?case
    by (simp add: replicate_app_Cons_same add.assoc)
qed

lemma demo_word_loop:
  "word_loop char_tokens 512 (a_words 519) (chunks, [], 0) = (chunks @ [demo_W1], a_words 7, 9)"
proof -
  have split: "a_words 519 = replicate 512 ''a'' @ (''a'' # (replicate 6 ''a'' @ [''a.'']))"
  proof -
    have "replicate 519 ''a'' = replicate (512 + 7) ''a''" by simp
    also have "\<dots> = replicate 512 ''a'' @ replicate 7 ''a''" by (rule replicate_add)
    also have "replicate 7 ''a'' = ''a'' # replicate 6 ''a''"
      by (simp add: eval_nat_numeral)
    finally show ?thesis by (simp add: a_words_def)
  qed
  have "word_loop char_tokens 512 (a_words 519) (chunks, [], 0) =
        word_loop char_tokens 512 (''a'' # (replicate 6 ''a'' @ [''a.'']))
          (chunks, [] @ replicate 512 ''a'', 0 + 512 * char_tokens ''a'')"
    unfolding split by (rule word_loop_replicate) simp
  also have "\<dots> = word_loop char_tokens 512 (replicate 6 ''a'' @ [''a.''])
                      (chunks @ [demo_W1], [''a''], 1)"
    by (simp add: flush_def demo_W1_def)
  also have "\<dots> = word_loop char_tokens 512 [''a.'']
                      (chunks @ [demo_W1], [''a''] @ replicate 6 ''a'', 1 + 6 * char_tokens ''a'')"
    by (rule word_loop_replicate) simp
  also have "\<dots> = (chunks @ [demo_W1], ([''a''] @ replicate 6 ''a'') @ [''a.''], 9)"
    by simp
  also have "([''a''] @ replicate 6 ''a'') @ [''a.''] = a_words 7"
    by (simp add: a_words_def eval_nat_numeral)
  finally show ?thesis .
qed

lemma flush_a_words: "flush cs (a_words n) = cs @ [a_sentence n]"
  by (simp add: flush_def a_sentence_def a_words_def)

lemma demo_split:
  "split_text_by_sentences None char_tokens demo_content 512 =
     [demo_W1, a_sentence 7, ''b b b b.'', a_sentence 508]"
proof -
  have 1: "sentence_loop char_tokens 512 [a_sentence 519, ''b b b b.'', a_sentence 508] ([], [], 0) =
           sentence_loop char_tokens 512 [''b b b b.'', a_sentence 508]
             ([demo_W1, a_sentence 7], [], 0)"
    by (simp add: split_ws_a_sentence demo_word_loop [of "[]", simplified] flush_a_words)
  have 2: "sentence_loop char_tokens 512 [''b b b b.'', a_sentence 508]
             ([demo_W1, a_sentence 7], [], 0) =
           sentence_loop char_tokens 512 [a_sentence 508]
             ([demo_W1, a_sentence 7], [''b b b b.''], 5)"
    by simp
  have 3: "sentence_loop char_tokens 512 [a_sentence 508]
             ([demo_W1, a_sentence 7], [''b b b b.''], 5) =
           ([demo_W1, a_sentence 7, ''b b b b.''], [a_sentence 508], 510)"
    by (simp add: flush_def)
  show ?thesis
    by (simp add: split_text_by_sentences_def sentences_of_def demo_sentences 1 2 3 flush_def
        del: sentence_loop.simps)
qed

lemma char_tokens_Cons:
  "char_tokens (c # s) = (if is_space c then 0 else 1) + char_tokens s"
  by (simp add: char_tokens_def)

lemma char_tokens_demo_content: "char_tokens demo_content = 1036"
  by (simp add: demo_content_def char_tokens_Cons is_space_def)

lemma demo_chunk_section:
  "chunk_section None char_tokens demo_uuid4 demo_section src = demo_chunks src"
proof -
  have c: "sec_content demo_section = demo_content"
    by (simp add: demo_section_def)
  have m: "merge_loop char_tokens demo_uuid4 demo_section src
          (enumerate 0 [demo_W1, a_sentence 7, ''b b b b.'', a_sentence 508]) [] =
        demo_chunks src"
    by (simp add: demo_chunks_def MIN_CHUNK_TOKENS_def MAX_CHUNK_TOKENS_def new_chunk_def
        char_tokens_Cons is_space_def numeral_2_eq_2)
  have "chunk_section None char_tokens demo_uuid4 demo_section src =
        merge_loop char_tokens demo_uuid4 demo_section src
          (enumerate 0 (split_text_by_sentences None char_tokens demo_content MAX_CHUNK_TOKENS)) []"
    by (simp add: chunk_section_def c char_tokens_demo_content MAX_CHUNK_TOKENS_def
        del: merge_loop.simps)
  also have "\<dots> = merge_loop char_tokens demo_uuid4 demo_section src
          (enumerate 0 [demo_W1, a_sentence 7, ''b b b b.'', a_sentence 508]) []"
    by (simp only: MAX_CHUNK_TOKENS_def demo_split)
  finally show ?thesis by (simp only: m)
qed

subsection \<open>Undersized passages\<close>

lemma passages_ok_snoc:
  "passages_ok ct pieces prev (bs @ [l]) \<longleftrightarrow>
   passages_ok ct pieces prev bs \<and> passage_ok ct pieces (last_of prev bs) l"
  by (induction bs arbitrary: prev) (auto simp: last_of_def)

lemma passages_ok_nth:
  "passages_ok ct pieces prev chunks \<Longrightarrow> j < length chunks \<Longrightarrow>
   passage_ok ct pieces (if j = 0 then prev else Some (chunks ! (j - 1))) (chunks ! j)"
proof (induction chunks arbitrary: prev j)
  case Nil
  then show ?case by simp
next
  case (Cons p chunks)
  show ?case
  proof (cases j)
    case 0
    with Cons.prems show ?thesis by simp
  next
    case (Suc i)
    with Cons.prems have "passages_ok ct pieces (Some p) chunks" "i < length chunks" by simp_all
    from Cons.IH [OF this] show ?thesis
      by (cases i) (simp_all add: Suc)
  qed
qed

lemma merge_step_ok:
  assumes inv: "passages_ok ct pieces None chunks"
      and k: "k < length pieces"
      and ne: "chunks \<noteq> [] \<longrightarrow> 0 < k"
  shows "passages_ok ct pieces None (merge_step ct uuid4 sec src (k, pieces ! k) chunks)"
proof (cases "ct (pieces ! k) < MIN_CHUNK_TOKENS \<and> k > 0 \<and> chunks \<noteq> [] \<and>
         ct (cm_text (last chunks) @ '' '' @ pieces ! k) \<le> MAX_CHUNK_TOKENS")
  case True
  then obtain bs l where bl: "chunks = bs @ [l]"
    by (cases chunks rule: rev_cases) auto
  have step: "merge_step ct uuid4 sec src (k, pieces ! k) chunks =
        bs @ [l\<lparr>cm_text := cm_text l @ '' '' @ pieces ! k,
                  cm_token_count := ct (cm_text l @ '' '' @ pieces ! k)\<rparr>]"
    using True by (simp only: merge_step_def fst_conv snd_conv if_True) (simp add: bl)
  from inv have "passages_ok ct pieces None bs" "passage_ok ct pieces (last_of None bs) l"
    by (simp_all add: bl passages_ok_snoc)
  then show ?thesis
    unfolding step passages_ok_snoc
    by (auto simp: passage_ok_def split: option.splits)
next
  case False
  have step: "merge_step ct uuid4 sec src (k, pieces ! k) chunks =
             chunks @ [new_chunk uuid4 (length chunks) sec src (pieces ! k) (ct (pieces ! k)) k]"
    using False by (simp only: merge_step_def fst_conv snd_conv if_False)
  have "passage_ok ct pieces (last_of None chunks)
          (new_chunk uuid4 (length chunks) sec src (pieces ! k) (ct (pieces ! k)) k)"
    using False k ne by (auto simp: passage_ok_def last_of_def new_chunk_def)
  with inv show ?thesis
    unfolding step passages_ok_snoc by simp
qed

lemma merge_step_nonempty: "merge_step ct uuid4 sec src ip chunks \<noteq> []"
  by (simp add: merge_step_def)

lemma merge_loop_ok:
  "passages_ok ct pieces None chunks \<Longrightarrow> k \<le> length pieces \<Longrightarrow> (chunks \<noteq> [] \<longrightarrow> 0 < k) \<Longrightarrow>
   rest = drop k pieces \<Longrightarrow>
   passages_ok ct pieces None (merge_loop ct uuid4 sec src (enumerate k rest) chunks)"
proof (induction rest arbitrary: k chunks)
  case Nil
  then show ?case by simp
next
  case (Cons x rest)
  from Cons.prems(4) have k: "k < length pieces"
    by (metis Cons.prems(2) drop_eq_Nil2 le_neq_implies_less list.distinct(1) order.order_iff_strict)
  with Cons.prems(4) have x: "x = pieces ! k" and rest: "rest = drop (Suc k) pieces"
    by (simp_all add: Cons_nth_drop_Suc [symmetric])
  have "passages_ok ct pieces None (merge_step ct uuid4 sec src (k, pieces ! k) chunks)"
    by (rule merge_step_ok [OF Cons.prems(1) k Cons.prems(3)])
  moreover have "Suc k \<le> length pieces" using k by simp
  moreover have "merge_step ct uuid4 sec src (k, pieces ! k) chunks \<noteq> [] \<longrightarrow> 0 < Suc k" by simp
  ultimately have "passages_ok ct pieces None
      (merge_loop ct uuid4 sec src (enumerate (Suc k) rest)
         (merge_step ct uuid4 sec src (k, pieces ! k) chunks))"
    using rest by (intro Cons.IH)
  then show ?case
    by (simp only: enumerate_simps merge_loop_step x)
qed

text \<open>
  Claim C3, as the code has it. Every passage carries the token count of its text.
  A passage after the first was opened by the split chunk at position \<open>chunk_index\<close>
  of the split pass, its text starts with that split chunk, and if that split chunk
  has fewer than \<open>MIN_CHUNK_TOKENS\<close> tokens then merging it into the preceding
  passage would have exceeded \<open>MAX_CHUNK_TOKENS\<close>. The first split chunk is never
  merged. Nothing confines an undersized passage to the last position.
\<close>

theorem chunk_section_undersized:
  assumes j: "j < length (chunk_section nlp ct uuid4 sec src)"
  shows "cm_token_count (chunk_section nlp ct uuid4 sec src ! j) =
           ct (cm_text (chunk_section nlp ct uuid4 sec src ! j)) \<and>
         (0 < j \<longrightarrow>
            cm_chunk_index (chunk_section nlp ct uuid4 sec src ! j) <
              length (split_text_by_sentences nlp ct (sec_content sec) MAX_CHUNK_TOKENS) \<and>
            prefix (split_text_by_sentences nlp ct (sec_content sec) MAX_CHUNK_TOKENS !
                      cm_chunk_index (chunk_section nlp ct uuid4 sec src ! j))
                   (cm_text (chunk_section nlp ct uuid4 sec src ! j)) \<and>
            (ct (split_text_by_sentences nlp ct (sec_content sec) MAX_CHUNK_TOKENS !
                   cm_chunk_index (chunk_section nlp ct uuid4 sec src ! j)) < MIN_CHUNK_TOKENS \<longrightarrow>
             MAX_CHUNK_TOKENS <
               ct (cm_text (chunk_section nlp ct uuid4 sec src ! (j - 1)) @ '' '' @
                   split_text_by_sentences nlp ct (sec_content sec) MAX_CHUNK_TOKENS !
                     cm_chunk_index (chunk_section nlp ct uuid4 sec src ! j))))"
proof (cases "ct (sec_content sec) \<le> MAX_CHUNK_TOKENS")
  case True
  then have "chunk_section nlp ct uuid4 sec src =
             [new_chunk uuid4 0 sec src (sec_content sec) (ct (sec_content sec)) 0]"
    by (simp add: chunk_section_def)
  with j show ?thesis
    by (simp add: new_chunk_def)
next
  case False
  define pieces where "pieces = split_text_by_sentences nlp ct (sec_content sec) MAX_CHUNK_TOKENS"
  define out where "out = chunk_section nlp ct uuid4 sec src"
  from False have out: "out = merge_loop ct uuid4 sec src (enumerate 0 pieces) []"
    by (simp add: out_def pieces_def chunk_section_def)
  have "passages_ok ct pieces None out"
    unfolding out by (rule merge_loop_ok) simp_all
  moreover from j have "j < length out" by (simp add: out_def)
  ultimately have "passage_ok ct pieces (if j = 0 then None else Some (out ! (j - 1))) (out ! j)"
    by (rule passages_ok_nth)
  then have "cm_token_count (out ! j) = ct (cm_text (out ! j)) \<and>
         (0 < j \<longrightarrow>
            cm_chunk_index (out ! j) < length pieces \<and>
            prefix (pieces ! cm_chunk_index (out ! j)) (cm_text (out ! j)) \<and>
            (ct (pieces ! cm_chunk_index (out ! j)) < MIN_CHUNK_TOKENS \<longrightarrow>
             MAX_CHUNK_TOKENS <
               ct (cm_text (out ! (j - 1)) @ '' '' @ pieces ! cm_chunk_index (out ! j))))"
    by (auto simp: passage_ok_def)
  then show ?thesis
    unfolding out_def pieces_def .
qed

lemma demo_split_MAX:
  "split_text_by_sentences None char_tokens (sec_content demo_section) MAX_CHUNK_TOKENS =
     [demo_W1, a_sentence 7, ''b b b b.'', a_sentence 508]"
  by (simp add: demo_section_def MAX_CHUNK_TOKENS_def demo_split)

theorem chunk_section_undersized_witness:
  "(1::nat) < length (chunk_section None char_tokens demo_uuid4 demo_section ''chapter-3.md'') \<and>
   char_tokens (split_text_by_sentences None char_tokens (sec_content demo_section) MAX_CHUNK_TOKENS !
      cm_chunk_index (chunk_section None char_tokens demo_uuid4 demo_section ''chapter-3.md'' ! 1))
     < MIN_CHUNK_TOKENS \<and>
   MAX_CHUNK_TOKENS <
     char_tokens (cm_text (chunk_section None char_tokens demo_uuid4 demo_section ''chapter-3.md'' ! 0) @
       '' '' @
       split_text_by_sentences None char_tokens (sec_content demo_section) MAX_CHUNK_TOKENS !
         cm_chunk_index (chunk_section None char_tokens demo_uuid4 demo_section ''chapter-3.md'' ! 1))"
proof -
  have len: "(1::nat) < length (chunk_section None char_tokens demo_uuid4 demo_section ''chapter-3.md'')"
    by (simp add: demo_chunk_section demo_chunks_def)
  have idx: "cm_chunk_index (chunk_section None char_tokens demo_uuid4 demo_section ''chapter-3.md'' ! 1) = 1"
    by (simp add: demo_chunk_section demo_chunks_def new_chunk_def)
  have small: "char_tokens (split_text_by_sentences None char_tokens (sec_content demo_section)
                 MAX_CHUNK_TOKENS !
      cm_chunk_index (chunk_section None char_tokens demo_uuid4 demo_section ''chapter-3.md'' ! 1))
     < MIN_CHUNK_TOKENS"
    by (simp only: idx demo_split_MAX) (simp add: MIN_CHUNK_TOKENS_def)
  from chunk_section_undersized [OF len] small len show ?thesis
    by simp
qed

text \<open>
  Claim C3 as stated fails on the sample section: of its three passages the second
  one has 14 tokens. It holds the remainder of the word-level split of the first
  sentence, which could not be merged into the full first passage, and the short
  second sentence, which was merged into it.
\<close>

theorem chunk_section_undersized_middle_counterexample:
  "length (chunk_section None char_tokens demo_uuid4 demo_section ''chapter-3.md'') = 3 \<and>
   cm_token_count (chunk_section None char_tokens demo_uuid4 demo_section ''chapter-3.md'' ! 1) = 14 \<and>
   cm_token_count (chunk_section None char_tokens demo_uuid4 demo_section ''chapter-3.md'' ! 1)
     < MIN_CHUNK_TOKENS"
  by (simp add: demo_chunk_section demo_chunks_def new_chunk_def MIN_CHUNK_TOKENS_def)

text \<open>
  Claim C4 at the sample section: the split pass yields four chunks, the third is
  merged into the second passage, and the last passage keeps the position 3 it had
  before the merge. The passages carry the indices 0, 1 and 3.
\<close>

theorem chunk_section_index_gap:
  "map cm_chunk_index (chunk_section None char_tokens demo_uuid4 demo_section ''chapter-3.md'') =
     [0, 1, 3]"
  by (simp add: demo_chunk_section demo_chunks_def new_chunk_def)

lemma char_tokens_blank: "split_ws s = [] \<Longrightarrow> char_tokens s = 0"
proof -
  assume "split_ws s = []"
  then have "concat (split_ws s) = []" by simp
  then show ?thesis by (simp add: concat_split_ws char_tokens_def)
qed

subsection \<open>Content preservation on the sample section\<close>

theorem chunk_section_preserves_content_witness:
  "split_ws (join '' '' (map cm_text
      (chunk_section None char_tokens demo_uuid4 demo_section ''chapter-3.md''))) =
     split_ws demo_content \<and>
   length (chunk_section None char_tokens demo_uuid4 demo_section ''chapter-3.md'') = 3"
proof -
  have sents: "\<forall>f. (None :: (string \<Rightarrow> string list) option) = Some f \<longrightarrow>
       all_words (f (sec_content demo_section)) = split_ws (sec_content demo_section)"
    by simp
  have blank: "split_ws (sec_content demo_section) = [] \<longrightarrow>
       char_tokens (sec_content demo_section) \<le> MAX_CHUNK_TOKENS"
    by (simp add: char_tokens_blank)
  have c: "sec_content demo_section = demo_content"
    by (simp add: demo_section_def)
  have "length (chunk_section None char_tokens demo_uuid4 demo_section ''chapter-3.md'') = 3"
    by (simp add: demo_chunk_section demo_chunks_def)
  with chunk_section_preserves_content [where nlp = None and sec = demo_section
      and ct = char_tokens and ?uuid4.0 = demo_uuid4 and src = "''chapter-3.md''"] sents blank c
  show ?thesis by simp
qed

subsection \<open>The token budget\<close>

text \<open>
  With a subadditive tokenizer the running totals of the split loops bound the token
  counts of the chunks they emit, and the merge pass checks the budget itself. So
  the budget holds for every passage as long as each sentence that exceeds it
  consists of words that do not.
\<close>

lemma flush_bound:
  assumes "subadditive ct" "\<forall>x\<in>set chunks. ct x \<le> mx" "sum_list (map ct buf) \<le> mx"
  shows "\<forall>x\<in>set (flush chunks buf). ct x \<le> mx"
proof -
  have "ct (join '' '' buf) \<le> sum_list (map ct buf)"
    using assms(1) by (simp add: subadditive_def)
  with assms(2,3) show ?thesis
    by (auto simp: flush_def)
qed

lemma word_loop_bound:
  assumes sub: "subadditive ct"
  shows "word_loop ct mx ws (chunks, temp, n) = (chunks', temp', n') \<Longrightarrow>
         \<forall>w\<in>set ws. ct w \<le> mx \<Longrightarrow> \<forall>x\<in>set chunks. ct x \<le> mx \<Longrightarrow>
         sum_list (map ct temp) = n \<Longrightarrow> n \<le> mx \<Longrightarrow>
         (\<forall>x\<in>set chunks'. ct x \<le> mx) \<and> sum_list (map ct temp') = n' \<and> n' \<le> mx"
proof (induction ws arbitrary: chunks temp n)
  case Nil
  then show ?case by simp
next
  case (Cons w ws)
  show ?case
  proof (cases "n + ct w > mx")
    case True
    with Cons.prems(1) have
      "word_loop ct mx ws (flush chunks temp, [w], ct w) = (chunks', temp', n')" by simp
    moreover have "\<forall>x\<in>set (flush chunks temp). ct x \<le> mx"
      using sub Cons.prems(3,4,5) by (intro flush_bound) simp_all
    ultimately show ?thesis
      using Cons.prems(2) by (intro Cons.IH [of "flush chunks temp" "[w]" "ct w"]) simp_all
  next
    case False
    with Cons.prems(1) have
      "word_loop ct mx ws (chunks, temp @ [w], n + ct w) = (chunks', temp', n')" by simp
    then show ?thesis
      using Cons.prems(2,3,4) False
      by (intro Cons.IH [of chunks "temp @ [w]" "n + ct w"]) simp_all
  qed
qed

lemma sentence_loop_bound:
  assumes sub: "subadditive ct"
  shows "sentence_loop ct mx ss (chunks, cur, n) = (chunks', cur', n') \<Longrightarrow>
         \<forall>s\<in>set ss. mx < ct s \<longrightarrow> (\<forall>w\<in>set (split_ws s). ct w \<le> mx) \<Longrightarrow>
         \<forall>x\<in>set chunks. ct x \<le> mx \<Longrightarrow>
         sum_list (map ct cur) = n \<Longrightarrow> n \<le> mx \<Longrightarrow>
         (\<forall>x\<in>set chunks'. ct x \<le> mx) \<and> sum_list (map ct cur') = n' \<and> n' \<le> mx"
proof (induction ss arbitrary: chunks cur n)
  case Nil
  then show ?case by simp
next
  case (Cons s ss)
  from Cons.prems(2) have rest: "\<forall>s\<in>set ss. mx < ct s \<longrightarrow> (\<forall>w\<in>set (split_ws s). ct w \<le> mx)"
    by simp
  consider (long) "ct s > mx" | (full) "\<not> ct s > mx" "n + ct s > mx"
    | (fits) "\<not> ct s > mx" "\<not> n + ct s > mx" by blast
  then show ?case
  proof cases
    case long
    define chunks1 where "chunks1 = (if cur \<noteq> [] then chunks @ [join '' '' cur] else chunks)"
    define cur1 where "cur1 = (if cur \<noteq> [] then [] else cur)"
    define n1 where "n1 = (if cur \<noteq> [] then 0 else n)"
    obtain chunks2 temp tn where
      wl: "word_loop ct mx (split_ws s) (chunks1, [], 0) = (chunks2, temp, tn)"
      by (cases "word_loop ct mx (split_ws s) (chunks1, [], 0)") auto
    have "chunks1 = flush chunks cur"
      by (simp add: chunks1_def flush_def)
    then have b1: "\<forall>x\<in>set chunks1. ct x \<le> mx"
      using sub Cons.prems(3,4,5) by (simp only:) (intro flush_bound, simp_all)
    have words: "\<forall>w\<in>set (split_ws s). ct w \<le> mx"
      using Cons.prems(2) long by simp
    from word_loop_bound [OF sub wl words b1]
    have b2: "\<forall>x\<in>set chunks2. ct x \<le> mx" "sum_list (map ct temp) = tn" "tn \<le> mx"
      by simp_all
    have b3: "\<forall>x\<in>set (flush chunks2 temp). ct x \<le> mx"
      using sub b2 by (intro flush_bound) simp_all
    have c1: "sum_list (map ct cur1) = n1" "n1 \<le> mx"
      using Cons.prems(4,5) by (auto simp: cur1_def n1_def)
    from long Cons.prems(1) wl have
      "sentence_loop ct mx ss (flush chunks2 temp, cur1, n1) = (chunks', cur', n')"
      by (simp add: chunks1_def cur1_def n1_def split: if_splits)
    then show ?thesis
      using rest b3 c1 by (rule Cons.IH)
  next
    case full
    with Cons.prems(1) have
      "sentence_loop ct mx ss (flush chunks cur, [s], ct s) = (chunks', cur', n')" by simp
    moreover have "\<forall>x\<in>set (flush chunks cur). ct x \<le> mx"
      using sub Cons.prems(3,4,5) by (intro flush_bound) simp_all
    ultimately show ?thesis
      using rest full(1) by (intro Cons.IH [of "flush chunks cur" "[s]" "ct s"]) simp_all
  next
    case fits
    with Cons.prems(1) have
      "sentence_loop ct mx ss (chunks, cur @ [s], n + ct s) = (chunks', cur', n')" by simp
    then show ?thesis
      using rest Cons.prems(3,4) fits(2)
      by (intro Cons.IH [of chunks "cur @ [s]" "n + ct s"]) simp_all
  qed
qed

lemma split_text_bound:
  assumes sub: "subadditive ct"
      and words: "\<forall>s\<in>set (sentences_of nlp txt). mx < ct s \<longrightarrow> (\<forall>w\<in>set (split_ws s). ct w \<le> mx)"
  shows "\<forall>x\<in>set (split_text_by_sentences nlp ct txt mx). ct x \<le> mx"
proof -
  obtain chunks cur n where
    sl: "sentence_loop ct mx (sentences_of nlp txt) ([], [], 0) = (chunks, cur, n)"
    by (cases "sentence_loop ct mx (sentences_of nlp txt) ([], [], 0)") auto
  from sentence_loop_bound [OF sub sl words]
  have "\<forall>x\<in>set chunks. ct x \<le> mx" "sum_list (map ct cur) = n" "n \<le> mx" by simp_all
  with sub have "\<forall>x\<in>set (flush chunks cur). ct x \<le> mx"
    by (intro flush_bound) simp_all
  then show ?thesis
    by (simp add: split_text_by_sentences_def sl)
qed

lemma merge_step_bound:
  assumes "\<forall>p\<in>set chunks. cm_token_count p \<le> MAX_CHUNK_TOKENS" "ct (snd ip) \<le> MAX_CHUNK_TOKENS"
  shows "\<forall>p\<in>set (merge_step ct uuid4 sec src ip chunks). cm_token_count p \<le> MAX_CHUNK_TOKENS"
proof (cases "ct (snd ip) < MIN_CHUNK_TOKENS \<and> fst ip > 0 \<and> chunks \<noteq> [] \<and>
         ct (cm_text (last chunks) @ '' '' @ snd ip) \<le> MAX_CHUNK_TOKENS")
  case True
  have "merge_step ct uuid4 sec src ip chunks =
        butlast chunks @
           [(last chunks)\<lparr>cm_text := cm_text (last chunks) @ '' '' @ snd ip,
                          cm_token_count := ct (cm_text (last chunks) @ '' '' @ snd ip)\<rparr>]"
    unfolding merge_step_def by (rule if_P [OF True])
  with True assms(1) show ?thesis
    by (auto dest: in_set_butlastD)
next
  case False
  have "merge_step ct uuid4 sec src ip chunks =
             chunks @ [new_chunk uuid4 (length chunks) sec src (snd ip) (ct (snd ip)) (fst ip)]"
    unfolding merge_step_def by (rule if_not_P [OF False])
  with assms show ?thesis
    by (auto simp: new_chunk_def)
qed

lemma merge_loop_bound:
  "\<forall>p\<in>set chunks. cm_token_count p \<le> MAX_CHUNK_TOKENS \<Longrightarrow>
   \<forall>ip\<in>set ps. ct (snd ip) \<le> MAX_CHUNK_TOKENS \<Longrightarrow>
   \<forall>p\<in>set (merge_loop ct uuid4 sec src ps chunks). cm_token_count p \<le> MAX_CHUNK_TOKENS"
proof (induction ps arbitrary: chunks)
  case Nil
  then show ?case by simp
next
  case (Cons ip ps)
  have "\<forall>p\<in>set (merge_step ct uuid4 sec src ip chunks). cm_token_count p \<le> MAX_CHUNK_TOKENS"
    using Cons.prems by (intro merge_step_bound) simp_all
  then have "\<forall>p\<in>set (merge_loop ct uuid4 sec src ps (merge_step ct uuid4 sec src ip chunks)).
               cm_token_count p \<le> MAX_CHUNK_TOKENS"
    using Cons.prems(2) by (intro Cons.IH) simp_all
  then show ?case by (simp only: merge_loop_step)
qed

lemma chunk_section_within_budget:
  assumes sub: "subadditive ct"
      and words: "\<forall>s\<in>set (sentences_of nlp (sec_content sec)).
                    MAX_CHUNK_TOKENS < ct s \<longrightarrow> (\<forall>w\<in>set (split_ws s). ct w \<le> MAX_CHUNK_TOKENS)"
  shows "\<forall>p\<in>set (chunk_section nlp ct uuid4 sec src). cm_token_count p \<le> MAX_CHUNK_TOKENS"
proof (cases "ct (sec_content sec) \<le> MAX_CHUNK_TOKENS")
  case True
  then show ?thesis by (simp add: chunk_section_def new_chunk_def)
next
  case False
  have "\<forall>x\<in>set (split_text_by_sentences nlp ct (sec_content sec) MAX_CHUNK_TOKENS).
          ct x \<le> MAX_CHUNK_TOKENS"
    using sub words by (rule split_text_bound)
  then have "\<forall>ip\<in>set (enumerate 0 (split_text_by_sentences nlp ct (sec_content sec) MAX_CHUNK_TOKENS)).
          ct (snd ip) \<le> MAX_CHUNK_TOKENS"
    by (auto simp: enumerate_eq_zip dest: set_zip_rightD)
  then have "\<forall>p\<in>set (merge_loop ct uuid4 sec src
          (enumerate 0 (split_text_by_sentences nlp ct (sec_content sec) MAX_CHUNK_TOKENS)) []).
          cm_token_count p \<le> MAX_CHUNK_TOKENS"
    by (intro merge_loop_bound) simp_all
  with False show ?thesis by (simp add: chunk_section_def)
qed

lemma char_tokens_subadditive: "subadditive char_tokens"
  by (simp add: subadditive_def char_tokens_join)

subsection \<open>A word longer than the budget\<close>

lemma hyphen_word_plain: "\<forall>c\<in>set hyphen_word. \<not> is_space c"
  by (auto simp: hyphen_word_def is_space_def)

lemma hyphen_word_length: "length hyphen_word = 600"
  by (simp add: hyphen_word_def length_concat sum_list_replicate)

lemma hyphen_word_nonempty: "hyphen_word \<noteq> []"
  using hyphen_word_length by auto

lemma char_tokens_plain: "\<forall>c\<in>set s. \<not> is_space c \<Longrightarrow> char_tokens s = length s"
  by (simp add: char_tokens_def)

lemma char_tokens_hyphen_word: "char_tokens hyphen_word = 600"
  by (simp add: char_tokens_plain hyphen_word_plain hyphen_word_length)

lemma find_boundary_plain: "\<forall>c\<in>set s. \<not> is_space c \<Longrightarrow> find_boundary s = None"
  by (induction s rule: find_boundary.induct) simp_all

lemma hyphen_split:
  "split_text_by_sentences None char_tokens hyphen_word 512 = [hyphen_word]"
proof -
  have s: "regex_split_sentences hyphen_word = [hyphen_word]"
    by (simp add: regex_split_sentences.simps [of hyphen_word] find_boundary_plain hyphen_word_plain)
  have w: "split_ws hyphen_word = [hyphen_word]"
    by (rule split_ws_word [OF hyphen_word_nonempty hyphen_word_plain])
  show ?thesis
    by (simp add: split_text_by_sentences_def sentences_of_def s w char_tokens_hyphen_word
        flush_def)
qed

text \<open>
  Claim C1 at a section whose content is a single word of 600 tokens: the word-level
  split starts a new chunk with the word and never splits inside it, so the only
  passage has 600 tokens, above \<open>MAX_CHUNK_TOKENS\<close>. The sample tokenizer is
  subadditive (\<open>char_tokens_subadditive\<close>), so this is the one case that
  \<open>chunk_section_within_budget\<close> leaves out.
\<close>

theorem chunk_section_overlong_word:
  "map cm_token_count (chunk_section None char_tokens demo_uuid4 hyphen_section ''chapter-3.md'') =
     [600] \<and>
   MAX_CHUNK_TOKENS < 600"
proof -
  have c: "sec_content hyphen_section = hyphen_word"
    by (simp add: hyphen_section_def)
  show ?thesis
    by (simp add: chunk_section_def c char_tokens_hyphen_word MAX_CHUNK_TOKENS_def
        MIN_CHUNK_TOKENS_def hyphen_split new_chunk_def)
qed

section \<open>Section parsing\<close>

subsection \<open>Lines before the first heading\<close>

lemma pieces_from_plain: "d \<notin> set x \<Longrightarrow> pieces_from d p x = [rev p @ x]"
  by (induction x arbitrary: p) auto

lemma pieces_from_sep:
  "d \<notin> set x \<Longrightarrow> pieces_from d p (x @ d # s) = (rev p @ x) # pieces_from d [] s"
  by (induction x arbitrary: p) auto

lemma split_on_join_Cons:
  "\<forall>l\<in>set (x # xs). d \<notin> set l \<Longrightarrow>
   pieces_from d p (x @ concat (map (\<lambda>y. [d] @ y) xs)) = (rev p @ x) # xs"
proof (induction xs arbitrary: x p)
  case Nil
  then show ?case by (simp add: pieces_from_plain)
next
  case (Cons y ys)
  have "pieces_from d p (x @ concat (map (\<lambda>y. [d] @ y) (y # ys))) =
        pieces_from d p (x @ d # (y @ concat (map (\<lambda>y. [d] @ y) ys)))"
    by simp
  also have "\<dots> = (rev p @ x) # pieces_from d [] (y @ concat (map (\<lambda>y. [d] @ y) ys))"
    using Cons.prems by (intro pieces_from_sep) simp
  also have "pieces_from d [] (y @ concat (map (\<lambda>y. [d] @ y) ys)) = (rev [] @ y) # ys"
    using Cons.prems by (intro Cons.IH) simp
  finally show ?case by simp
qed

lemma split_on_join:
  "ls \<noteq> [] \<Longrightarrow> \<forall>l\<in>set ls. d \<notin> set l \<Longrightarrow> split_on d (join [d] ls) = ls"
proof (cases ls)
  case Nil
  assume "ls \<noteq> []"
  with Nil show ?thesis by simp
next
  case (Cons x xs)
  assume "\<forall>l\<in>set ls. d \<notin> set l"
  with Cons show ?thesis
    unfolding split_on_def Cons join_Cons by (simp only: split_on_join_Cons rev.simps append_Nil)
qed

lemma pieces_from_free:
  "l \<in> set (pieces_from d p s) \<Longrightarrow> d \<notin> set p \<Longrightarrow> d \<notin> set l"
proof (induction s arbitrary: p)
  case Nil
  then show ?case by simp
next
  case (Cons c s)
  show ?case
  proof (cases "c = d")
    case True
    with Cons.prems have "l = rev p \<or> l \<in> set (pieces_from d [] s)" by simp
    then show ?thesis
    proof
      assume "l = rev p"
      with Cons.prems(2) show ?thesis by simp
    next
      assume "l \<in> set (pieces_from d [] s)"
      then show ?thesis by (rule Cons.IH) simp
    qed
  next
    case False
    with Cons.prems have "l \<in> set (pieces_from d (c # p) s)" by simp
    moreover have "d \<notin> set (c # p)" using False Cons.prems(2) by auto
    ultimately show ?thesis by (rule Cons.IH)
  qed
qed

lemma split_on_free: "l \<in> set (split_on d s) \<Longrightarrow> d \<notin> set l"
  unfolding split_on_def by (erule pieces_from_free) simp

lemma parse_line_preamble:
  "header_match line = None \<Longrightarrow>
   parse_line chap line (sections, None, content, counters) = (sections, None, content, counters)"
  by simp

lemma parse_lines_preamble:
  "\<forall>l\<in>set pre. header_match l = None \<Longrightarrow>
   parse_lines chap (pre @ rest) (sections, None, content, counters) =
   parse_lines chap rest (sections, None, content, counters)"
  by (induction pre) (simp_all add: parse_lines_def)

lemma header_match_Nil: "header_match [] = None"
  by (simp add: header_match_def)

text \<open>
  Claim C10. The lines of the document that precede its first heading line leave no
  trace: the document parses to the same sections as the document without them, and
  when no line is a heading at all (nothing follows the lines without heading) the
  result is the empty list. \<open>parse_markdown_sections\<close> is a total function that
  returns a list: no input makes it raise.
\<close>

theorem preamble_discarded:
  assumes lines: "split_on (CHR 0x0A) markdown_text = pre @ rest"
      and pre: "\<forall>l\<in>set pre. header_match l = None"
  shows "parse_markdown_sections markdown_text chap src =
           parse_markdown_sections (join [CHR 0x0A] rest) chap src \<and>
         (rest = [] \<longrightarrow> parse_markdown_sections markdown_text chap src = [])"
proof -
  have whole: "parse_lines chap (split_on (CHR 0x0A) markdown_text) ([], None, [], \<lambda>l. 0) =
               parse_lines chap rest ([], None, [], \<lambda>l. 0)"
    unfolding lines by (rule parse_lines_preamble [OF pre])
  have empty: "parse_markdown_sections markdown_text chap src = []" if "rest = []"
    using whole that by (simp add: parse_markdown_sections_def parse_lines_def save_section_def)
  have same: "parse_lines chap (split_on (CHR 0x0A) (join [CHR 0x0A] rest)) ([], None, [], \<lambda>l. 0) =
              parse_lines chap rest ([], None, [], \<lambda>l. 0)"
  proof (cases "rest = []")
    case True
    then show ?thesis
      by (simp add: split_on_def parse_lines_def header_match_Nil)
  next
    case False
    have "\<forall>l\<in>set rest. CHR 0x0A \<notin> set l"
    proof
      fix l assume "l \<in> set rest"
      then have "l \<in> set (split_on (CHR 0x0A) markdown_text)" by (simp add: lines)
      then show "CHR 0x0A \<notin> set l" by (rule split_on_free)
    qed
    with False show ?thesis by (simp add: split_on_join)
  qed
  from whole same empty show ?thesis
    by (simp add: parse_markdown_sections_def)
qed


theorem preamble_discarded_witness:
  "split_on (CHR 0x0A) preamble_doc = [''draft notes''] @ [''# Kinematics'', ''Joint angles.''] \<and>
   header_match ''draft notes'' = None \<and>
   parse_markdown_sections preamble_doc 3 ''chapter-3.md'' =
     parse_markdown_sections (join [CHR 0x0A] [''# Kinematics'', ''Joint angles.'']) 3 ''chapter-3.md'' \<and>
   map sec_content (parse_markdown_sections preamble_doc 3 ''chapter-3.md'') = [''Joint angles.'']"
proof -
  have l: "split_on (CHR 0x0A) preamble_doc = [''draft notes''] @ [''# Kinematics'', ''Joint angles.'']"
    by (simp add: preamble_doc_def split_on_def)
  have h: "header_match ''draft notes'' = None"
    by (simp add: header_match_def)
  have p: "\<forall>l\<in>set [''draft notes'']. header_match l = None"
    by (simp add: h)
  have c: "map sec_content (parse_markdown_sections preamble_doc 3 ''chapter-3.md'') = [''Joint angles.'']"
    by (simp add: parse_markdown_sections_def l parse_lines_def header_match_def is_space_def
        save_section_def new_section_def strip_def Let_def)
  from preamble_discarded [OF l p, of 3 "''chapter-3.md''"] l h c show ?thesis
    by simp
qed

subsection \<open>Section identifiers\<close>

lemma sibling_doc_lines:
  "split_on (CHR 0x0A) sibling_doc =
     [''## Kinematics'', ''Overview.'', ''### Forward'', ''Angles to pose.'',
      ''### Inverse'', ''Pose to angles.'']"
  by (simp add: sibling_doc_def split_on_def)

lemma sibling_doc_sections:
  "map (\<lambda>s. (sec_level s, sec_section_id s, sec_subsection_id s))
     (parse_markdown_sections sibling_doc 3 ''chapter-3.md'') =
   [(2, ''3.1'', None), (3, ''3.1'', Some ''3.1.1''), (3, ''3.1'', Some ''3.1.2'')]"
  by (simp add: parse_markdown_sections_def sibling_doc_lines parse_lines_def header_match_def
      is_space_def save_section_def new_section_def strip_def Let_def str_int_def
      str_nat.simps eval_nat_numeral)

lemma two_title_doc_lines:
  "split_on (CHR 0x0A) two_title_doc =
     [''# Part A'', ''## Forward'', ''Angles to pose.'', ''# Part B'', ''## Inverse'',
      ''Pose to angles.'']"
  by (simp add: two_title_doc_def split_on_def)

lemma two_title_doc_sections:
  "map (\<lambda>s. (sec_level s, sec_title s, sec_section_id s))
     (parse_markdown_sections two_title_doc 3 ''chapter-3.md'') =
   [(2, ''Forward'', ''3.1''), (2, ''Inverse'', ''3.1'')]"
  by (simp add: parse_markdown_sections_def two_title_doc_lines parse_lines_def header_match_def
      is_space_def save_section_def new_section_def strip_def Let_def str_int_def
      str_nat.simps eval_nat_numeral)

text \<open>
  Claim C5 as stated fails in two ways. A heading of depth 3 or more gets the
  \<open>section_id\<close> of the depth-2 counter, so the two depth-3 siblings of the first sample
  document share the \<open>section_id\<close> of their parent. And a heading of depth 1 resets
  the deeper counters without entering the identifiers, so in the second sample
  document the first depth-2 sections under two titles share the \<open>section_id\<close> 3.1.
\<close>

theorem section_id_shared_counterexample:
  "map (\<lambda>s. (sec_level s, sec_section_id s))
     (parse_markdown_sections sibling_doc 3 ''chapter-3.md'') =
     [(2, ''3.1''), (3, ''3.1''), (3, ''3.1'')] \<and>
   \<not> distinct (map sec_section_id (parse_markdown_sections sibling_doc 3 ''chapter-3.md'')) \<and>
   map (\<lambda>s. (sec_level s, sec_title s, sec_section_id s))
     (parse_markdown_sections two_title_doc 3 ''chapter-3.md'') =
     [(2, ''Forward'', ''3.1''), (2, ''Inverse'', ''3.1'')] \<and>
   \<not> distinct (map sec_section_id (parse_markdown_sections two_title_doc 3 ''chapter-3.md''))"
proof -
  have a: "map (\<lambda>s. (sec_level s, sec_section_id s))
             (parse_markdown_sections sibling_doc 3 ''chapter-3.md'') =
           map (\<lambda>t. (fst t, fst (snd t)))
             (map (\<lambda>s. (sec_level s, sec_section_id s, sec_subsection_id s))
                (parse_markdown_sections sibling_doc 3 ''chapter-3.md''))"
       "map sec_section_id (parse_markdown_sections sibling_doc 3 ''chapter-3.md'') =
          map (fst \<circ> snd) (map (\<lambda>s. (sec_level s, sec_section_id s, sec_subsection_id s))
            (parse_markdown_sections sibling_doc 3 ''chapter-3.md''))"
       "map sec_section_id (parse_markdown_sections two_title_doc 3 ''chapter-3.md'') =
          map (snd \<circ> snd) (map (\<lambda>s. (sec_level s, sec_title s, sec_section_id s))
            (parse_markdown_sections two_title_doc 3 ''chapter-3.md''))"
    by (simp_all add: comp_def)
  show ?thesis
    unfolding a by (simp only: sibling_doc_sections two_title_doc_sections) simp
qed

lemma digit_char_inj:
  "n < 10 \<Longrightarrow> m < 10 \<Longrightarrow> ''0123456789'' ! n = ''0123456789'' ! m \<Longrightarrow> n = m"
proof -
  assume "n < 10" "m < 10" and eq: "''0123456789'' ! n = ''0123456789'' ! m"
  have "distinct ''0123456789''" by simp
  moreover have "n < length ''0123456789''" "m < length ''0123456789''"
    using \<open>n < 10\<close> \<open>m < 10\<close> by simp_all
  ultimately show "n = m"
    using eq by (simp only: nth_eq_iff_index_eq)
qed

lemma str_nat_nonempty: "str_nat n \<noteq> []"
  by (subst str_nat.simps) simp

lemma str_nat_length_ge: "10 \<le> n \<Longrightarrow> 2 \<le> length (str_nat n)"
proof -
  assume "10 \<le> n"
  then have "str_nat n = str_nat (n div 10) @ [''0123456789'' ! (n mod 10)]"
    by (subst str_nat.simps) simp
  moreover have "1 \<le> length (str_nat (n div 10))"
    using str_nat_nonempty [of "n div 10"] by (cases "str_nat (n div 10)") simp_all
  ultimately show ?thesis by simp
qed

lemma str_nat_inj: "str_nat n = str_nat m \<Longrightarrow> n = m"
proof (induction n arbitrary: m rule: str_nat.induct)
  case (1 n)
  show ?case
  proof (cases "n < 10")
    case True
    then have n: "str_nat n = [''0123456789'' ! n]"
      by (subst str_nat.simps) simp
    show ?thesis
    proof (cases "m < 10")
      case m: True
      then have "str_nat m = [''0123456789'' ! m]"
        by (subst str_nat.simps) simp
      with n "1.prems" have "''0123456789'' ! n = ''0123456789'' ! m" by simp
      with True m show ?thesis by (rule digit_char_inj)
    next
      case False
      then have "2 \<le> length (str_nat m)" by (intro str_nat_length_ge) simp
      with n "1.prems" show ?thesis by simp
    qed
  next
    case False
    then have n: "str_nat n = str_nat (n div 10) @ [''0123456789'' ! (n mod 10)]"
      by (subst str_nat.simps) simp
    show ?thesis
    proof (cases "m < 10")
      case True
      then have "str_nat m = [''0123456789'' ! m]"
        by (subst str_nat.simps) simp
      moreover from False have "2 \<le> length (str_nat n)" by (intro str_nat_length_ge) simp
      ultimately show ?thesis using "1.prems" by simp
    next
      case m: False
      then have "str_nat m = str_nat (m div 10) @ [''0123456789'' ! (m mod 10)]"
        by (subst str_nat.simps) simp
      with n "1.prems" have a: "str_nat (n div 10) = str_nat (m div 10)"
          and b: "''0123456789'' ! (n mod 10) = ''0123456789'' ! (m mod 10)"
        by simp_all
      from "1.IH" [OF False a] have "n div 10 = m div 10" .
      moreover have "n mod 10 = m mod 10"
        by (rule digit_char_inj [OF _ _ b]) simp_all
      ultimately show ?thesis
        by (metis div_mult_mod_eq)
    qed
  qed
qed

lemma join_snoc: "xs \<noteq> [] \<Longrightarrow> join sep (xs @ [y]) = join sep xs @ sep @ y"
  by (cases xs) (simp_all add: join_Cons)

lemma str_nat_digits: "c \<in> set (str_nat n) \<Longrightarrow> is_digit c"
proof (induction n rule: str_nat.induct)
  case (1 n)
  have dg: "is_digit (''0123456789'' ! k)" if "k < 10" for k
  proof -
    from that have "k < length ''0123456789''" by simp
    then have "''0123456789'' ! k \<in> set ''0123456789''" by (rule nth_mem)
    then show ?thesis by (simp only: is_digit_def)
  qed
  show ?case
  proof (cases "n < 10")
    case True
    then have "str_nat n = [''0123456789'' ! n]" by (subst str_nat.simps) simp
    with "1.prems" dg [OF True] show ?thesis by simp
  next
    case False
    then have n: "str_nat n = str_nat (n div 10) @ [''0123456789'' ! (n mod 10)]"
      by (subst str_nat.simps) simp
    have "is_digit (''0123456789'' ! (n mod 10))" by (rule dg) simp
    with "1.prems" "1.IH" [OF False] show ?thesis unfolding n by auto
  qed
qed

lemma str_nat_no_dot: "CHR ''.'' \<notin> set (str_nat n)"
proof
  assume "CHR ''.'' \<in> set (str_nat n)"
  then have "is_digit CHR ''.''" by (rule str_nat_digits)
  then show False by (simp add: is_digit_def)
qed

lemma level_id_path:
  "2 \<le> d \<Longrightarrow>
   level_id chap c d = Some (str_int chap @ ''.'' @ join ''.'' (map (\<lambda>i. str_nat (c i)) [2 ..< d + 1]))"
proof (cases "d = 2")
  case True
  have "[2 ..< 2 + 1] = [2::nat]" by (simp add: upt_rec)
  with True show ?thesis by (simp add: level_id_def)
next
  case False
  then show ?thesis by (simp add: level_id_def)
qed

lemma level_id_eq:
  assumes eq: "level_id chap c0 d = level_id chap c1 d'" and d: "2 \<le> d" "2 \<le> d'"
  shows "d = d' \<and> (\<forall>i. 2 \<le> i \<and> i \<le> d \<longrightarrow> c0 i = c1 i)"
proof -
  define xs where "xs = map (\<lambda>i. str_nat (c0 i)) [2 ..< d + 1]"
  define ys where "ys = map (\<lambda>i. str_nat (c1 i)) [2 ..< d' + 1]"
  have ne: "xs \<noteq> []" "ys \<noteq> []" using d by (simp_all add: xs_def ys_def)
  have free: "\<forall>l\<in>set xs. CHR ''.'' \<notin> set l" "\<forall>l\<in>set ys. CHR ''.'' \<notin> set l"
    by (auto simp: xs_def ys_def str_nat_no_dot)
  from eq have "join ''.'' xs = join ''.'' ys"
    unfolding level_id_path [OF d(1)] level_id_path [OF d(2)] xs_def ys_def by simp
  then have "split_on (CHR ''.'') (join ''.'' xs) = split_on (CHR ''.'') (join ''.'' ys)"
    by simp
  then have xy: "xs = ys"
    by (simp only: split_on_join [OF ne(1) free(1)] split_on_join [OF ne(2) free(2)])
  then have "length xs = length ys" by simp
  then have dd: "d = d'" using d by (simp add: xs_def ys_def)
  have "\<forall>i. 2 \<le> i \<and> i \<le> d \<longrightarrow> c0 i = c1 i"
  proof (intro allI impI)
    fix i assume i: "2 \<le> i \<and> i \<le> d"
    from xy dd have "map (\<lambda>i. str_nat (c0 i)) [2 ..< d + 1] = map (\<lambda>i. str_nat (c1 i)) [2 ..< d + 1]"
      by (simp add: xs_def ys_def)
    moreover from i have "i \<in> set [2 ..< d + 1]" by auto
    ultimately have "str_nat (c0 i) = str_nat (c1 i)"
      by (simp only: map_eq_conv)
    then show "c0 i = c1 i" by (rule str_nat_inj)
  qed
  with dd show ?thesis by simp
qed

lemma reset_fold:
  "fold (\<lambda>deeper c. c(deeper := 0)) xs c = (\<lambda>i. if i \<in> set xs then 0 else c i)"
  by (induction xs arbitrary: c) (auto simp: fun_eq_iff)

lemma header_match_level: "header_match line = Some (lvl, g2) \<Longrightarrow> 1 \<le> lvl \<and> lvl \<le> 6"
  by (auto simp: header_match_def Let_def split: if_splits)

lemma new_section_level [simp]: "sec_level (new_section chap c lvl ttl) = lvl"
  by (simp add: new_section_def Let_def split: prod.splits)

lemma new_section_id: "2 \<le> lvl \<Longrightarrow> sibling_id (new_section chap c lvl ttl) = level_id chap c lvl"
  by (simp add: new_section_def sibling_id_def level_id_def Let_def)

lemma fold_bump:
  "fold (\<lambda>deeper c. c(deeper := 0)) [Suc lvl ..< 7] (c(lvl := Suc (c lvl))) = bump lvl c"
  by (auto simp: reset_fold bump_def fun_eq_iff)

lemma parse_line_header:
  "header_match line = Some (lvl, g2) \<Longrightarrow>
   parse_line chap line (sections, cur, content, c) =
     (save_section sections cur content,
      Some (new_section chap (bump lvl c) lvl (strip g2)), [], bump lvl c)"
  by (simp add: Let_def fold_bump del: upt_Suc)

lemma parse_line_text:
  "header_match line = None \<Longrightarrow>
   parse_line chap line (sections, cur, content, c) =
     (sections, cur, if cur \<noteq> None then content @ [line] else content, c)"
  by simp

lemma le_path_bump:
  assumes "le_path c0 c d" "2 \<le> lvl"
  shows "le_path c0 (bump lvl c) d"
proof -
  from assms(1) consider
      (eq) "\<forall>i. 2 \<le> i \<and> i \<le> d \<longrightarrow> c0 i = c i"
    | (lt) j where "2 \<le> j" "j \<le> d" "c0 j < c j" "\<forall>i. 2 \<le> i \<and> i < j \<longrightarrow> c0 i = c i"
    unfolding le_path_def by blast
  then show ?thesis
  proof cases
    case eq
    show ?thesis
    proof (cases "lvl \<le> d")
      case True
      with eq assms(2) have "c0 lvl < bump lvl c lvl" "\<forall>i. 2 \<le> i \<and> i < lvl \<longrightarrow> c0 i = bump lvl c i"
        by (auto simp: bump_def)
      with True assms(2) show ?thesis unfolding le_path_def by blast
    next
      case False
      with eq have "\<forall>i. 2 \<le> i \<and> i \<le> d \<longrightarrow> c0 i = bump lvl c i"
        by (auto simp: bump_def)
      then show ?thesis unfolding le_path_def by blast
    qed
  next
    case lt
    consider "lvl < j" | "lvl = j" | "j < lvl" by linarith
    then show ?thesis
    proof cases
      case 1
      with lt assms(2) have "2 \<le> lvl" "lvl \<le> d" "c0 lvl < bump lvl c lvl"
          "\<forall>i. 2 \<le> i \<and> i < lvl \<longrightarrow> c0 i = bump lvl c i"
        by (auto simp: bump_def)
      then show ?thesis unfolding le_path_def by blast
    next
      case 2
      with lt have "c0 j < bump lvl c j" "\<forall>i. 2 \<le> i \<and> i < j \<longrightarrow> c0 i = bump lvl c i"
        by (auto simp: bump_def)
      with lt(1,2) show ?thesis unfolding le_path_def by blast
    next
      case 3
      with lt have "c0 j < bump lvl c j" "\<forall>i. 2 \<le> i \<and> i < j \<longrightarrow> c0 i = bump lvl c i"
        by (auto simp: bump_def)
      with lt(1,2) show ?thesis unfolding le_path_def by blast
    qed
  qed
qed

lemma le_path_fresh:
  assumes "le_path c0 c lvl" "2 \<le> lvl"
  shows "\<not> (\<forall>i. 2 \<le> i \<and> i \<le> lvl \<longrightarrow> c0 i = bump lvl c i)"
proof
  assume a: "\<forall>i. 2 \<le> i \<and> i \<le> lvl \<longrightarrow> c0 i = bump lvl c i"
  from assms(1) consider
      (eq) "\<forall>i. 2 \<le> i \<and> i \<le> lvl \<longrightarrow> c0 i = c i"
    | (lt) j where "2 \<le> j" "j \<le> lvl" "c0 j < c j" "\<forall>i. 2 \<le> i \<and> i < j \<longrightarrow> c0 i = c i"
    unfolding le_path_def by blast
  then show False
  proof cases
    case eq
    with assms(2) have "c0 lvl = c lvl" by simp
    moreover from a assms(2) have "c0 lvl = c lvl + 1" by (simp add: bump_def)
    ultimately show False by simp
  next
    case lt
    from a lt(1,2) have "c0 j = bump lvl c j" by simp
    moreover have "c j \<le> bump lvl c j" using lt(2) by (simp add: bump_def)
    ultimately show False using lt(3) by simp
  qed
qed

lemma le_path_refl: "le_path c c d"
  by (simp add: le_path_def)

lemma deep_keys_append [simp]: "deep_keys (xs @ ys) = deep_keys xs @ deep_keys ys"
  by (simp add: deep_keys_def)

lemma deep_keys_Nil [simp]: "deep_keys [] = []"
  by (simp add: deep_keys_def)

lemma deep_keys_content [simp]: "deep_keys [s\<lparr>sec_content := b\<rparr>] = deep_keys [s]"
  by (simp add: deep_keys_def sibling_id_def)

lemma deep_keys_save:
  "deep_keys (save_section sections cur content) = deep_keys (sections @ pending cur) \<or>
   deep_keys (save_section sections cur content) = deep_keys sections"
  by (cases cur) (simp_all add: save_section_def pending_def Let_def)

lemma deep_keys_new:
  "deep_keys [new_section chap c lvl ttl] = (if 2 \<le> lvl then [level_id chap c lvl] else [])"
  by (simp add: deep_keys_def new_section_id)

lemma ids_inv_header:
  assumes inv: "ids_inv chap seen (sections, cur, content, c)"
      and lvl: "1 \<le> lvl" "lvl \<le> 6"
      and ok: "lvl = 1 \<longrightarrow> \<not> seen"
  shows "ids_inv chap (seen \<or> lvl \<noteq> 1)
           (save_section sections cur content,
            Some (new_section chap (bump lvl c) lvl ttl), [], bump lvl c)"
proof -
  define old where "old = deep_keys (sections @ pending cur)"
  define saved where "saved = deep_keys (save_section sections cur content)"
  from inv have dist: "distinct old"
      and range: "\<forall>key\<in>set old. \<exists>d c0. 2 \<le> d \<and> d \<le> 6 \<and> key = level_id chap c0 d \<and> le_path c0 c d"
      and unseen: "\<not> seen \<longrightarrow> old = []"
    by (simp_all add: ids_inv_def old_def)
  have "saved = old \<or> saved = deep_keys sections"
    unfolding saved_def old_def by (rule deep_keys_save)
  then have sub: "set saved \<subseteq> set old" and sdist: "distinct saved"
    using dist by (auto simp: old_def)
  have keys: "deep_keys (save_section sections cur content @
                pending (Some (new_section chap (bump lvl c) lvl ttl))) =
              saved @ (if 2 \<le> lvl then [level_id chap (bump lvl c) lvl] else [])"
    by (simp add: saved_def pending_def deep_keys_new)
  show ?thesis
  proof (cases "lvl = 1")
    case True
    with ok unseen have "old = []" by simp
    with sub have "saved = []" by simp
    with True show ?thesis
      unfolding ids_inv_def prod.case keys by simp
  next
    case False
    with lvl have l2: "2 \<le> lvl" by simp
    have fresh: "level_id chap (bump lvl c) lvl \<notin> set saved"
    proof
      assume "level_id chap (bump lvl c) lvl \<in> set saved"
      with sub range obtain d c0 where k: "2 \<le> d"
          "level_id chap (bump lvl c) lvl = level_id chap c0 d" "le_path c0 c d" by blast
      from level_id_eq [OF k(2) l2 k(1)] have "lvl = d" "\<forall>i. 2 \<le> i \<and> i \<le> lvl \<longrightarrow> c0 i = bump lvl c i"
        by auto
      with k(3) le_path_fresh [of c0 c lvl, OF _ l2] show False by blast
    qed
    have r: "\<forall>key\<in>set (saved @ [level_id chap (bump lvl c) lvl]).
               \<exists>d c0. 2 \<le> d \<and> d \<le> 6 \<and> key = level_id chap c0 d \<and> le_path c0 (bump lvl c) d"
    proof
      fix key assume "key \<in> set (saved @ [level_id chap (bump lvl c) lvl])"
      then consider "key \<in> set saved" | "key = level_id chap (bump lvl c) lvl" by auto
      then show "\<exists>d c0. 2 \<le> d \<and> d \<le> 6 \<and> key = level_id chap c0 d \<and> le_path c0 (bump lvl c) d"
      proof cases
        case 1
        with sub range obtain d c0 where "2 \<le> d" "d \<le> 6" "key = level_id chap c0 d" "le_path c0 c d"
          by blast
        with le_path_bump [OF this(4) l2] show ?thesis by blast
      next
        case 2
        with l2 lvl(2) le_path_refl show ?thesis by blast
      qed
    qed
    from sdist fresh r l2 False show ?thesis
      unfolding ids_inv_def prod.case keys by simp
  qed
qed

lemma ids_inv_text:
  "ids_inv chap seen (sections, cur, content, c) \<Longrightarrow>
   ids_inv chap seen (sections, cur, content', c)"
  by (simp add: ids_inv_def)

lemma ids_inv_fold:
  "ids_inv chap seen st \<Longrightarrow> chapter_run seen lines \<Longrightarrow>
   \<exists>seen'. ids_inv chap seen' (fold (parse_line chap) lines st)"
proof (induction lines arbitrary: seen st)
  case Nil
  then show ?case by auto
next
  case (Cons line lines)
  obtain sections cur content c where st: "st = (sections, cur, content, c)"
    by (cases st)
  show ?case
  proof (cases "header_match line")
    case None
    with Cons.prems have "ids_inv chap seen (parse_line chap line st)" "chapter_run seen lines"
      by (simp_all add: st del: parse_line.simps add: parse_line_text ids_inv_text)
    from Cons.IH [OF this] show ?thesis by simp
  next
    case (Some a)
    obtain lvl g2 where a: "a = (lvl, g2)" by (cases a)
    from Some a have lvl: "1 \<le> lvl" "lvl \<le> 6"
      using header_match_level [of line lvl g2] by simp_all
    from Cons.prems(2) Some a have ok: "lvl = 1 \<longrightarrow> \<not> seen"
        and run: "chapter_run (seen \<or> lvl \<noteq> 1) lines"
      by (auto split: if_splits)
    have "ids_inv chap (seen \<or> lvl \<noteq> 1) (parse_line chap line st)"
      unfolding st parse_line_header [OF Some [unfolded a]]
      using Cons.prems(1) lvl ok unfolding st by (rule ids_inv_header)
    from Cons.IH [OF this run] show ?thesis by simp
  qed
qed


lemma section_id_form_new: "section_id_form chap ((new_section chap c lvl ttl)\<lparr>sec_content := b\<rparr>)"
  by (auto simp: section_id_form_def new_section_def Let_def)

lemma section_id_form_new': "section_id_form chap (new_section chap c lvl ttl)"
  by (auto simp: section_id_form_def new_section_def Let_def)

lemma section_id_form_content:
  "section_id_form chap s \<Longrightarrow> section_id_form chap (s\<lparr>sec_content := b\<rparr>)"
  by (auto simp: section_id_form_def split: if_splits)

lemma save_section_form:
  "\<forall>s\<in>set (sections @ pending cur). section_id_form chap s \<Longrightarrow>
   \<forall>s\<in>set (save_section sections cur content). section_id_form chap s"
  by (cases cur) (auto simp: save_section_def pending_def Let_def section_id_form_content)

lemma parse_line_form:
  assumes "\<forall>s\<in>set (sections @ pending cur). section_id_form chap s"
      and "parse_line chap line (sections, cur, content, c) = (sections', cur', content', c')"
  shows "\<forall>s\<in>set (sections' @ pending cur'). section_id_form chap s"
proof (cases "header_match line")
  case None
  with assms show ?thesis by (auto simp: parse_line_text simp del: parse_line.simps)
next
  case (Some a)
  obtain lvl g2 where a: "a = (lvl, g2)" by (cases a)
  from assms(2) have "sections' = save_section sections cur content"
      "cur' = Some (new_section chap (bump lvl c) lvl (strip g2))"
    unfolding parse_line_header [OF Some [unfolded a]] by auto
  with save_section_form [OF assms(1), of content] show ?thesis
    by (auto simp: pending_def section_id_form_new')
qed

lemma parse_lines_form:
  "\<forall>s\<in>set (fst st @ pending (fst (snd st))). section_id_form chap s \<Longrightarrow>
   \<forall>s\<in>set (fst (fold (parse_line chap) lines st) @
            pending (fst (snd (fold (parse_line chap) lines st)))). section_id_form chap s"
proof (induction lines arbitrary: st)
  case Nil
  then show ?case by simp
next
  case (Cons line lines)
  obtain sections cur content c where st: "st = (sections, cur, content, c)" by (cases st)
  obtain sections' cur' content' c' where
    nx: "parse_line chap line (sections, cur, content, c) = (sections', cur', content', c')"
    by (cases "parse_line chap line (sections, cur, content, c)")
  from Cons.prems have "\<forall>s\<in>set (sections @ pending cur). section_id_form chap s"
    by (simp add: st)
  from parse_line_form [OF this nx]
  have "\<forall>s\<in>set (fst (sections', cur', content', c') @
          pending (fst (snd (sections', cur', content', c')))). section_id_form chap s"
    by simp
  from Cons.IH [OF this] show ?case
    by (simp add: st nx del: parse_line.simps)
qed

lemma parse_markdown_sections_lines:
  "parse_markdown_sections markdown_text chap src = sections_of chap (split_on (CHR 0x0A) markdown_text)"
  by (simp add: parse_markdown_sections_def sections_of_def split: prod.splits)

lemma new_section_agree:
  assumes "agree c c'" "lvl \<le> 6"
  shows "new_section chap c lvl ttl = new_section chap c' lvl ttl"
proof -
  have "map (\<lambda>i. str_nat (c i)) [2 ..< lvl + 1] = map (\<lambda>i. str_nat (c' i)) [2 ..< lvl + 1]"
    using assms by (intro map_cong) (auto simp: agree_def)
  moreover have "c 2 = c' 2" using assms(1) by (simp add: agree_def)
  ultimately show ?thesis by (simp only: new_section_def)
qed

lemma bump_agree: "agree c c' \<Longrightarrow> agree (bump lvl c) (bump lvl c')"
  by (auto simp: agree_def bump_def)

lemma bump_title_agree: "agree (bump 1 c) (bump 1 c')"
  by (auto simp: agree_def bump_def)

lemma save_section_append:
  "save_section (S @ s) cur content = S @ save_section s cur content"
  by (cases cur) (simp_all add: save_section_def Let_def)

lemma parse_line_shift:
  assumes "parse_line chap line (s, cur, content, c') = (s1, cur1, content1, d')" "agree c c'"
  shows "\<exists>d. parse_line chap line (S @ s, cur, content, c) = (S @ s1, cur1, content1, d) \<and>
             agree d d'"
proof (cases "header_match line")
  case None
  with assms show ?thesis
    by (auto simp: parse_line_text simp del: parse_line.simps)
next
  case (Some a)
  obtain lvl g2 where a: "a = (lvl, g2)" by (cases a)
  from Some a have lvl: "lvl \<le> 6" using header_match_level [of line lvl g2] by simp
  have ag: "agree (bump lvl c) (bump lvl c')" using assms(2) by (rule bump_agree)
  from assms(1) have r: "s1 = save_section s cur content"
      "cur1 = Some (new_section chap (bump lvl c') lvl (strip g2))" "content1 = []"
      "d' = bump lvl c'"
    unfolding parse_line_header [OF Some [unfolded a]] by auto
  have "parse_line chap line (S @ s, cur, content, c) =
        (S @ s1, cur1, content1, bump lvl c)"
    unfolding parse_line_header [OF Some [unfolded a]] r
    by (simp only: save_section_append new_section_agree [OF ag lvl])
  with ag r(4) show ?thesis by blast
qed

lemma parse_lines_shift:
  "fold (parse_line chap) lines (s, cur, content, c') = (s1, cur1, content1, d') \<Longrightarrow>
   agree c c' \<Longrightarrow>
   \<exists>d. fold (parse_line chap) lines (S @ s, cur, content, c) = (S @ s1, cur1, content1, d) \<and>
       agree d d'"
proof (induction lines arbitrary: s cur content c c')
  case Nil
  then show ?case by auto
next
  case (Cons line lines)
  obtain s2 cur2 content2 d2' where
    st: "parse_line chap line (s, cur, content, c') = (s2, cur2, content2, d2')"
    by (cases "parse_line chap line (s, cur, content, c')")
  from parse_line_shift [OF st Cons.prems(2)] obtain d2 where
    sh: "parse_line chap line (S @ s, cur, content, c) = (S @ s2, cur2, content2, d2)"
    and ag: "agree d2 d2'" by blast
  from Cons.prems(1) have "fold (parse_line chap) lines (s2, cur2, content2, d2') =
      (s1, cur1, content1, d')"
    by (simp add: st del: parse_line.simps)
  from Cons.IH [OF this ag] show ?case
    by (simp add: sh del: parse_line.simps)
qed

lemma sections_of_split:
  assumes "title_line h"
  shows "sections_of chap (xs @ h # ys) = sections_of chap xs @ sections_of chap (h # ys)"
proof -
  from assms obtain g2 where hm: "header_match h = Some (1, g2)"
    by (auto simp: title_line_def split: option.splits)
  obtain s cur content c where
    pre: "fold (parse_line chap) xs ([], None, [], \<lambda>l. 0) = (s, cur, content, c)"
    by (cases "fold (parse_line chap) xs ([], None, [], \<lambda>l. 0)")
  define S where "S = save_section s cur content"
  have sx: "sections_of chap xs = S"
    by (simp add: sections_of_def parse_lines_def pre S_def)
  define newsec where "newsec = new_section chap (bump 1 (\<lambda>l. 0)) 1 (strip g2)"
  have same: "new_section chap (bump 1 c) 1 (strip g2) = newsec"
    unfolding newsec_def by (rule new_section_agree [OF bump_title_agree]) simp
  obtain s1 cur1 content1 d' where
    fresh: "fold (parse_line chap) ys ([], Some newsec, [], bump 1 (\<lambda>l. 0)) =
            (s1, cur1, content1, d')"
    by (cases "fold (parse_line chap) ys ([], Some newsec, [], bump 1 (\<lambda>l. 0))")
  have "agree (bump 1 c) (bump 1 (\<lambda>l. 0))" by (rule bump_title_agree)
  from parse_lines_shift [OF fresh this, of S] obtain d where
    shifted: "fold (parse_line chap) ys (S, Some newsec, [], bump 1 c) =
              (S @ s1, cur1, content1, d)" by auto
  have step: "parse_line chap h ([], None, [], \<lambda>l. 0) = ([], Some newsec, [], bump 1 (\<lambda>l. 0))"
    unfolding parse_line_header [OF hm] newsec_def by (simp add: save_section_def)
  have step': "parse_line chap h (s, cur, content, c) = (S, Some newsec, [], bump 1 c)"
    unfolding parse_line_header [OF hm] S_def same by (rule refl)
  have "sections_of chap (h # ys) = save_section s1 cur1 content1"
    by (simp only: sections_of_def parse_lines_def fold_simps comp_apply step fresh prod.case)
  moreover have "sections_of chap (xs @ h # ys) = save_section (S @ s1) cur1 content1"
    by (simp only: sections_of_def parse_lines_def fold_append fold_simps comp_apply pre step'
        shifted prod.case)
  ultimately show ?thesis
    by (simp add: sx save_section_append)
qed

lemma sections_of_blocks:
  "\<forall>b\<in>set bs. \<exists>h ys. b = h # ys \<and> title_line h \<Longrightarrow>
   sections_of chap (b0 @ concat bs) = sections_of chap b0 @ concat (map (sections_of chap) bs)"
proof (induction bs arbitrary: b0)
  case Nil
  then show ?case by simp
next
  case (Cons b bs)
  then obtain h ys where b: "b = h # ys" "title_line h" by auto
  have "sections_of chap (b0 @ concat (b # bs)) = sections_of chap (b0 @ h # (ys @ concat bs))"
    by (simp add: b)
  also have "\<dots> = sections_of chap b0 @ sections_of chap (h # (ys @ concat bs))"
    using b(2) by (rule sections_of_split)
  also have "sections_of chap (h # (ys @ concat bs)) = sections_of chap (b @ concat bs)"
    by (simp add: b)
  also have "\<dots> = sections_of chap b @ concat (map (sections_of chap) bs)"
    using Cons.prems by (intro Cons.IH) simp
  finally show ?case by simp
qed

lemma blocks_Nil [simp]: "blocks [] = [[]]"
  by (simp add: blocks_def)

lemma blocks_Cons [simp]: "blocks (line # ls) = add_line line (blocks ls)"
  by (simp add: blocks_def)

lemma blocks_nonempty: "blocks ls \<noteq> []"
proof (induction ls)
  case Nil
  then show ?case by simp
next
  case (Cons line ls)
  then show ?case by (cases "blocks ls") simp_all
qed

lemma concat_blocks: "concat (blocks ls) = ls"
proof (induction ls)
  case Nil
  then show ?case by simp
next
  case (Cons line ls)
  then show ?case
    using blocks_nonempty [of ls] by (cases "blocks ls") simp_all
qed

lemma blocks_shape:
  "(\<forall>l\<in>set (hd (blocks ls)). \<not> title_line l) \<and>
   (\<forall>b\<in>set (tl (blocks ls)). \<exists>h ys. b = h # ys \<and> title_line h \<and> (\<forall>l\<in>set ys. \<not> title_line l))"
proof (induction ls)
  case Nil
  then show ?case by simp
next
  case (Cons line ls)
  then show ?case
    using blocks_nonempty [of ls] by (cases "blocks ls") auto
qed

lemma title_free_run: "\<forall>l\<in>set b. \<not> title_line l \<Longrightarrow> chapter_run seen b"
proof (induction b arbitrary: seen)
  case Nil
  then show ?case by simp
next
  case (Cons l b)
  then have "\<not> title_line l" and rest: "\<forall>l\<in>set b. \<not> title_line l" by simp_all
  then show ?case
    using Cons.IH [OF rest]
    by (cases "header_match l") (auto simp: title_line_def)
qed

lemma blocks_run: "b \<in> set (blocks ls) \<Longrightarrow> chapter_run False b"
proof -
  assume "b \<in> set (blocks ls)"
  then consider "b = hd (blocks ls)" | "b \<in> set (tl (blocks ls))"
    using blocks_nonempty [of ls] by (cases "blocks ls") auto
  then show ?thesis
  proof cases
    case 1
    with blocks_shape [of ls] show ?thesis by (simp add: title_free_run)
  next
    case 2
    with blocks_shape [of ls] obtain h ys where
      b: "b = h # ys" "title_line h" "\<forall>l\<in>set ys. \<not> title_line l" by blast
    from b(3) have "chapter_run False ys" by (rule title_free_run)
    with b(1,2) show ?thesis
      by (auto simp: title_line_def split: option.splits)
  qed
qed

lemma sections_of_concat_blocks:
  "sections_of chap ls = concat (map (sections_of chap) (blocks ls))"
proof -
  obtain b0 bs where bl: "blocks ls = b0 # bs"
    using blocks_nonempty [of ls] by (cases "blocks ls") auto
  from blocks_shape [of ls] have "\<forall>b\<in>set bs. \<exists>h ys. b = h # ys \<and> title_line h"
    unfolding bl by auto
  then have "sections_of chap (b0 @ concat bs) =
             sections_of chap b0 @ concat (map (sections_of chap) bs)"
    by (rule sections_of_blocks)
  moreover have "b0 @ concat bs = ls"
    using concat_blocks [of ls] by (simp add: bl)
  ultimately show ?thesis by (simp add: bl)
qed

lemma sections_of_no_lines: "sections_of chap [] = []" "sections_of chap [[]] = []"
  by (simp_all add: sections_of_def parse_lines_def save_section_def header_match_def)

lemma block_sections:
  assumes "b \<in> set (blocks (split_on (CHR 0x0A) markdown_text))"
  shows "parse_markdown_sections (join [CHR 0x0A] b) chap src = sections_of chap b"
proof (cases "b = []")
  case True
  then show ?thesis
    by (simp add: parse_markdown_sections_lines split_on_def sections_of_no_lines)
next
  case False
  have "\<forall>l\<in>set b. CHR 0x0A \<notin> set l"
  proof
    fix l assume "l \<in> set b"
    with assms have "l \<in> set (concat (blocks (split_on (CHR 0x0A) markdown_text)))" by auto
    then have "l \<in> set (split_on (CHR 0x0A) markdown_text)" by (simp only: concat_blocks)
    then show "CHR 0x0A \<notin> set l" by (rule split_on_free)
  qed
  with False have "split_on (CHR 0x0A) (join [CHR 0x0A] b) = b" by (rule split_on_join)
  then show ?thesis by (simp add: parse_markdown_sections_lines)
qed


lemma chapter_ids_distinct:
  assumes a: "chapter_run False lines"
  shows "distinct (map sibling_id (filter (\<lambda>s. 2 \<le> sec_level s) (sections_of chap lines)))"
proof -
  obtain sections cur content c where
    fin: "fold (parse_line chap) lines ([], None, [], \<lambda>l. 0) = (sections, cur, content, c)"
    by (cases "fold (parse_line chap) lines ([], None, [], \<lambda>l. 0)")
  have "ids_inv chap False ([], None, [], \<lambda>l. 0)"
    by (simp add: ids_inv_def pending_def)
  then have "\<exists>seen'. ids_inv chap seen' (fold (parse_line chap) lines ([], None, [], \<lambda>l. 0))"
    using a by (rule ids_inv_fold)
  then obtain seen' where "ids_inv chap seen' (sections, cur, content, c)"
    unfolding fin by blast
  then have dist: "distinct (deep_keys (sections @ pending cur))"
    by (simp add: ids_inv_def)
  have "deep_keys (save_section sections cur content) = deep_keys (sections @ pending cur) \<or>
        deep_keys (save_section sections cur content) = deep_keys sections"
    by (rule deep_keys_save)
  with dist have "distinct (deep_keys (save_section sections cur content))"
    by auto
  then show ?thesis
    by (simp add: sections_of_def parse_lines_def fin deep_keys_def)
qed

lemma depth2_ids_distinct:
  assumes "distinct (map sibling_id (filter (\<lambda>s. 2 \<le> sec_level s) secs))"
  shows "distinct (map sec_section_id (filter (\<lambda>s. sec_level s = 2) secs))"
proof -
  have "filter (\<lambda>s. sec_level s = 2) secs =
        filter (\<lambda>s. sec_level s = 2) (filter (\<lambda>s. 2 \<le> sec_level s) secs)"
    by (simp add: conj_commute cong: conj_cong)
  moreover have "distinct (map sibling_id
        (filter (\<lambda>s. sec_level s = 2) (filter (\<lambda>s. 2 \<le> sec_level s) secs)))"
    using assms by (rule distinct_map_filter)
  ultimately have "distinct (map sibling_id (filter (\<lambda>s. sec_level s = 2) secs))"
    by simp
  moreover have "map sibling_id (filter (\<lambda>s. sec_level s = 2) secs) =
                 map Some (map sec_section_id (filter (\<lambda>s. sec_level s = 2) secs))"
    by (simp add: sibling_id_def)
  ultimately have "distinct (map Some (map sec_section_id (filter (\<lambda>s. sec_level s = 2) secs)))"
    by simp
  then show ?thesis by (metis distinct_map)
qed

lemma sections_form:
  "\<forall>s\<in>set (sections_of chap lines). section_id_form chap s"
proof -
  obtain sections cur content c where
    fin: "fold (parse_line chap) lines ([], None, [], \<lambda>l. 0) = (sections, cur, content, c)"
    by (cases "fold (parse_line chap) lines ([], None, [], \<lambda>l. 0)")
  have "\<forall>s\<in>set (fst ([], None, [], \<lambda>l. 0 :: nat) @
           pending (fst (snd ([] :: Section list, None :: Section option, [] :: string list, \<lambda>l. 0 :: nat)))).
          section_id_form chap s"
    by (simp add: pending_def)
  from parse_lines_form [OF this, of lines]
  have "\<forall>s\<in>set (sections @ pending cur). section_id_form chap s"
    by (simp add: fin)
  then have "\<forall>s\<in>set (save_section sections cur content). section_id_form chap s"
    by (rule save_section_form)
  then show ?thesis
    by (simp add: sections_of_def parse_lines_def fin)
qed

text \<open>
  Claim C5, as the code has it, for every document. The lines of the document are
  cut into blocks in front of every heading of depth 1, and the sections of the
  document are the sections of its blocks, in order. Within a block the sections of
  depth 2 and more have pairwise distinct identifiers, \<open>section_id\<close> at depth 2 and
  \<open>subsection_id\<close> at depth 3 and more; in particular the sections of depth 2 of a
  block have pairwise distinct \<open>section_id\<close> values. Sections with the same parent are
  in the same block. The \<open>section_id\<close> of a returned section is the chapter number at
  depth 1 and the chapter number followed by the depth-2 counter at every other depth.
\<close>

theorem section_identifiers_distinct:
  "concat (blocks (split_on (CHR 0x0A) markdown_text)) = split_on (CHR 0x0A) markdown_text \<and>
   parse_markdown_sections markdown_text chap src =
     concat (map (\<lambda>b. parse_markdown_sections (join [CHR 0x0A] b) chap src)
               (blocks (split_on (CHR 0x0A) markdown_text))) \<and>
   (\<forall>b\<in>set (blocks (split_on (CHR 0x0A) markdown_text)).
      distinct (map sibling_id (filter (\<lambda>s. 2 \<le> sec_level s)
                  (parse_markdown_sections (join [CHR 0x0A] b) chap src))) \<and>
      distinct (map sec_section_id (filter (\<lambda>s. sec_level s = 2)
                  (parse_markdown_sections (join [CHR 0x0A] b) chap src)))) \<and>
   (\<forall>s\<in>set (parse_markdown_sections markdown_text chap src). section_id_form chap s)"
proof (intro conjI ballI)
  show "concat (blocks (split_on (CHR 0x0A) markdown_text)) = split_on (CHR 0x0A) markdown_text"
    by (rule concat_blocks)
  have "map (\<lambda>b. parse_markdown_sections (join [CHR 0x0A] b) chap src)
          (blocks (split_on (CHR 0x0A) markdown_text)) =
        map (sections_of chap) (blocks (split_on (CHR 0x0A) markdown_text))"
    by (intro map_cong refl block_sections)
  then show "parse_markdown_sections markdown_text chap src =
     concat (map (\<lambda>b. parse_markdown_sections (join [CHR 0x0A] b) chap src)
               (blocks (split_on (CHR 0x0A) markdown_text)))"
    by (simp only: parse_markdown_sections_lines [of markdown_text] sections_of_concat_blocks [symmetric])
next
  fix b assume b: "b \<in> set (blocks (split_on (CHR 0x0A) markdown_text))"
  then have "chapter_run False b" by (rule blocks_run)
  then have "distinct (map sibling_id (filter (\<lambda>s. 2 \<le> sec_level s) (sections_of chap b)))"
    by (rule chapter_ids_distinct)
  then show d: "distinct (map sibling_id (filter (\<lambda>s. 2 \<le> sec_level s)
                  (parse_markdown_sections (join [CHR 0x0A] b) chap src)))"
    by (simp only: block_sections [OF b])
  then show "distinct (map sec_section_id (filter (\<lambda>s. sec_level s = 2)
                  (parse_markdown_sections (join [CHR 0x0A] b) chap src)))"
    by (rule depth2_ids_distinct)
next
  fix s assume "s \<in> set (parse_markdown_sections markdown_text chap src)"
  then show "section_id_form chap s"
    using sections_form by (simp add: parse_markdown_sections_lines)
qed

lemma two_part_doc_lines:
  "split_on (CHR 0x0A) two_part_doc =
     [''# Statics'', ''## Forces'', ''Push.'', ''### Torque'', ''Twist.'',
      ''# Dynamics'', ''## Motion'', ''Move.'', ''## Energy'', ''Work.'']"
  by (simp add: two_part_doc_def split_on_def)

lemma two_part_doc_blocks:
  "blocks (split_on (CHR 0x0A) two_part_doc) =
     [[], [''# Statics'', ''## Forces'', ''Push.'', ''### Torque'', ''Twist.''],
      [''# Dynamics'', ''## Motion'', ''Move.'', ''## Energy'', ''Work.'']]"
  by (simp add: two_part_doc_lines title_line_def header_match_def is_space_def)

lemma two_part_doc_sections:
  "map (\<lambda>s. (sec_level s, sec_section_id s, sec_subsection_id s))
     (parse_markdown_sections two_part_doc 3 ''chapter-3.md'') =
   [(2, ''3.1'', None), (3, ''3.1'', Some ''3.1.1''), (2, ''3.1'', None), (2, ''3.2'', None)]"
  by (simp add: parse_markdown_sections_def two_part_doc_lines parse_lines_def header_match_def
      is_space_def save_section_def new_section_def strip_def Let_def str_int_def
      str_nat.simps eval_nat_numeral)

lemma second_part_sections:
  "map (\<lambda>s. (sec_level s, sec_section_id s, sec_subsection_id s))
     (parse_markdown_sections
        (join [CHR 0x0A] [''# Dynamics'', ''## Motion'', ''Move.'', ''## Energy'', ''Work.''])
        3 ''chapter-3.md'') =
   [(2, ''3.1'', None), (2, ''3.2'', None)]"
proof -
  have l: "split_on (CHR 0x0A)
             (join [CHR 0x0A] [''# Dynamics'', ''## Motion'', ''Move.'', ''## Energy'', ''Work.'']) =
           [''# Dynamics'', ''## Motion'', ''Move.'', ''## Energy'', ''Work.'']"
    by (rule split_on_join) simp_all
  show ?thesis
    unfolding parse_markdown_sections_def l
    by (simp add: parse_lines_def header_match_def
        is_space_def save_section_def new_section_def strip_def Let_def str_int_def
        str_nat.simps eval_nat_numeral)
qed

theorem section_identifiers_distinct_witness:
  "blocks (split_on (CHR 0x0A) two_part_doc) =
     [[], [''# Statics'', ''## Forces'', ''Push.'', ''### Torque'', ''Twist.''],
      [''# Dynamics'', ''## Motion'', ''Move.'', ''## Energy'', ''Work.'']] \<and>
   map (\<lambda>s. (sec_level s, sec_section_id s, sec_subsection_id s))
     (parse_markdown_sections two_part_doc 3 ''chapter-3.md'') =
   [(2, ''3.1'', None), (3, ''3.1'', Some ''3.1.1''), (2, ''3.1'', None), (2, ''3.2'', None)] \<and>
   map (\<lambda>s. (sec_level s, sec_section_id s, sec_subsection_id s))
     (parse_markdown_sections
        (join [CHR 0x0A] [''# Dynamics'', ''## Motion'', ''Move.'', ''## Energy'', ''Work.''])
        3 ''chapter-3.md'') =
   [(2, ''3.1'', None), (2, ''3.2'', None)] \<and>
   distinct (map sec_section_id (filter (\<lambda>s. sec_level s = 2)
     (parse_markdown_sections
        (join [CHR 0x0A] [''# Dynamics'', ''## Motion'', ''Move.'', ''## Energy'', ''Work.''])
        3 ''chapter-3.md'')))"
proof -
  have "[''# Dynamics'', ''## Motion'', ''Move.'', ''## Energy'', ''Work.'']
          \<in> set (blocks (split_on (CHR 0x0A) two_part_doc))"
    by (simp only: two_part_doc_blocks) simp
  with section_identifiers_distinct [of two_part_doc 3 "''chapter-3.md''"]
  have "distinct (map sec_section_id (filter (\<lambda>s. sec_level s = 2)
     (parse_markdown_sections
        (join [CHR 0x0A] [''# Dynamics'', ''## Motion'', ''Move.'', ''## Energy'', ''Work.''])
        3 ''chapter-3.md'')))"
    by blast
  with two_part_doc_blocks two_part_doc_sections second_part_sections show ?thesis
    by (intro conjI)
qed

section \<open>The ephemeral index\<close>

subsection \<open>Float comparisons and the descending sort\<close>

lemma flt_irrefl: "\<not> flt a a"
  by (cases a) simp_all

lemma flt_total: "a \<noteq> NaN \<Longrightarrow> b \<noteq> NaN \<Longrightarrow> \<not> flt a b \<Longrightarrow> fle b a"
  by (cases a; cases b) (auto simp: fle_def)

lemma fle_trans: "fle a b \<Longrightarrow> fle b c \<Longrightarrow> fle a c"
  by (cases a; cases b; cases c) (auto simp: fle_def)

lemma flt_fle: "flt a b \<Longrightarrow> fle a b"
  by (simp add: fle_def)

lemma fle_Fin [simp]: "fle (Fin x) (Fin y) \<longleftrightarrow> x \<le> y"
  by (auto simp: fle_def)

lemma set_insert_desc: "set (insert_desc key x ys) = insert x (set ys)"
  by (induction ys) auto

lemma length_insert_desc: "length (insert_desc key x ys) = Suc (length ys)"
  by (induction ys) auto

lemma sorted_insert_desc:
  assumes "sorted_wrt (\<lambda>a b. fle (key b) (key a)) ys"
      and "key x \<noteq> NaN" and "\<forall>y\<in>set ys. key y \<noteq> NaN"
  shows "sorted_wrt (\<lambda>a b. fle (key b) (key a)) (insert_desc key x ys)"
  using assms(1,3)
proof (induction ys)
  case Nil
  then show ?case by simp
next
  case (Cons y ys)
  show ?case
  proof (cases "flt (key x) (key y)")
    case True
    then have "fle (key x) (key y)" by (rule flt_fle)
    with True Cons show ?thesis
      by (auto simp: set_insert_desc)
  next
    case False
    have yx: "fle (key y) (key x)"
      using assms(2) Cons.prems(2) False by (intro flt_total) simp_all
    have "\<forall>z\<in>set ys. fle (key z) (key x)"
    proof
      fix z assume "z \<in> set ys"
      with Cons.prems(1) have "fle (key z) (key y)" by simp
      then show "fle (key z) (key x)" using yx by (rule fle_trans)
    qed
    with False yx Cons.prems(1) show ?thesis by simp
  qed
qed

lemma stable_insert_desc:
  "filter (\<lambda>z. key z = v) (insert_desc key x ys) =
   (if key x = v then x # filter (\<lambda>z. key z = v) ys else filter (\<lambda>z. key z = v) ys)"
proof (induction ys)
  case Nil
  then show ?case by simp
next
  case (Cons y ys)
  show ?case
  proof (cases "flt (key x) (key y)")
    case True
    then have "key x \<noteq> key y" using flt_irrefl [of "key y"] by auto
    with True Cons show ?thesis by auto
  next
    case False
    then show ?thesis by simp
  qed
qed

lemma set_foldr_insert: "set (foldr (insert_desc key) xs []) = set xs"
  by (induction xs) (simp_all add: set_insert_desc)

lemma length_foldr_insert: "length (foldr (insert_desc key) xs []) = length xs"
  by (induction xs) (simp_all add: length_insert_desc)

lemma sorted_foldr_insert:
  "\<forall>x\<in>set xs. key x \<noteq> NaN \<Longrightarrow>
   sorted_wrt (\<lambda>a b. fle (key b) (key a)) (foldr (insert_desc key) xs [])"
proof (induction xs)
  case Nil
  then show ?case by simp
next
  case (Cons x xs)
  have "sorted_wrt (\<lambda>a b. fle (key b) (key a)) (insert_desc key x (foldr (insert_desc key) xs []))"
    using Cons by (intro sorted_insert_desc) (simp_all add: set_foldr_insert)
  then show ?case by simp
qed

lemma stable_foldr_insert:
  "filter (\<lambda>z. key z = v) (foldr (insert_desc key) xs []) = filter (\<lambda>z. key z = v) xs"
  by (induction xs) (simp_all add: stable_insert_desc)

text \<open>
  On keys without NaN \<open>list_sort_reverse\<close> is the stable descending sort, whatever the
  parameter.
\<close>

lemma list_sort_reverse_sorted:
  "NaN \<notin> set (map key xs) \<Longrightarrow>
   sorted_wrt (\<lambda>a b. fle (key b) (key a)) (list_sort_reverse unordered key xs)"
proof -
  assume "NaN \<notin> set (map key xs)"
  then have "\<forall>x\<in>set xs. key x \<noteq> NaN" by (metis image_eqI list.set_map)
  then have "sorted_wrt (\<lambda>a b. fle (key b) (key a)) (foldr (insert_desc key) xs [])"
    by (rule sorted_foldr_insert)
  with \<open>NaN \<notin> set (map key xs)\<close> show ?thesis
    by (simp only: list_sort_reverse_def if_False)
qed

lemma list_sort_reverse_stable:
  "NaN \<notin> set (map key xs) \<Longrightarrow>
   filter (\<lambda>z. key z = v) (list_sort_reverse unordered key xs) = filter (\<lambda>z. key z = v) xs"
  by (simp add: list_sort_reverse_def stable_foldr_insert)

lemma list_sort_reverse_set:
  "NaN \<notin> set (map key xs) \<Longrightarrow> set (list_sort_reverse unordered key xs) = set xs"
  by (simp add: list_sort_reverse_def set_foldr_insert)

subsection \<open>Search\<close>

lemma score_chunks_total:
  "\<forall>c\<in>set chunks. length (ec_embedding c) = length q \<Longrightarrow>
   score_chunks fdot q chunks = Inr (map (\<lambda>c. (c, fdot q (ec_embedding c))) chunks)"
  by (induction chunks) (simp_all add: np_dot_def)

lemma sorted_wrt_slice_to:
  "sorted_wrt R xs \<Longrightarrow> sorted_wrt R (slice_to k xs)"
  by (simp add: slice_to_def sorted_wrt_take)

lemma search_eq:
  assumes "\<forall>c\<in>set chunks. length (ec_embedding c) = length q"
  shows "search unordered fdot chunks q top_k thr =
         Inr (map result_of (filter (\<lambda>p. fle thr (snd p))
               (slice_to top_k (list_sort_reverse unordered snd
                  (map (\<lambda>c. (c, fdot q (ec_embedding c))) chunks)))))"
proof (cases "chunks = []")
  case True
  then show ?thesis by (simp add: search_def slice_to_def list_sort_reverse_def)
next
  case False
  have "(\<lambda>(chunk, score). \<lparr>er_chunk_id = ec_chunk_id chunk, er_score = score,
            er_text = ec_text chunk, er_chunk_index = ec_chunk_index chunk\<rparr>) = result_of"
    by (auto simp: result_of_def fun_eq_iff)
  moreover have "(\<lambda>(chunk :: EphemeralChunk, score). fle thr score) = (\<lambda>p. fle thr (snd p))"
    by (auto simp: fun_eq_iff)
  ultimately show ?thesis
    using False by (simp add: search_def score_chunks_total [OF assms])
qed

lemma demo_search:
  "search as_it_is sample_dot demo_store [Fin (1/4), Fin (1/2)] 2 (Fin 0) =
   Inr [\<lparr>er_chunk_id = ''selected-001'', er_score = Fin (1/2), er_text = ''Beta.'',
         er_chunk_index = 1\<rparr>,
        \<lparr>er_chunk_id = ''selected-000'', er_score = Fin (1/4), er_text = ''Alpha.'',
         er_chunk_index = 0\<rparr>]"
  by (simp add: demo_store_def search_def np_dot_def slice_to_def sample_dot_def
      float_value_def list_sort_reverse_def)

text \<open>
  Claim C7, as the code has it. When every stored vector has the dimension of the
  query vector (otherwise the dot product raises) and \<open>top_k\<close> is not negative,
  \<open>search\<close> returns a list of at most \<open>top_k\<close> results, each with a score of at least
  \<open>score_threshold\<close>. When moreover no similarity is NaN, the results are in
  descending order of score, and each is built from a stored chunk whose dot product
  with the query vector is that score.
\<close>

theorem search_top_k_sorted_threshold:
  assumes dims: "\<forall>c\<in>set chunks. length (ec_embedding c) = length q"
      and k: "0 \<le> top_k"
  shows "\<exists>results. search unordered fdot chunks q top_k thr = Inr results \<and>
           length results \<le> nat top_k \<and>
           (\<forall>r\<in>set results. fle thr (er_score r)) \<and>
           ((\<forall>c\<in>set chunks. fdot q (ec_embedding c) \<noteq> NaN) \<longrightarrow>
              sorted_wrt (\<lambda>a b. fle (er_score b) (er_score a)) results \<and>
              (\<forall>r\<in>set results. \<exists>c\<in>set chunks.
                  er_chunk_id r = ec_chunk_id c \<and> er_text r = ec_text c \<and>
                  er_chunk_index r = ec_chunk_index c \<and>
                  np_dot fdot q (ec_embedding c) = Inr (er_score r)))"
proof -
  define scored where
    "scored = map (\<lambda>c. (c, fdot q (ec_embedding c))) chunks"
  define kept where
    "kept = filter (\<lambda>p. fle thr (snd p)) (slice_to top_k (list_sort_reverse unordered snd scored))"
  have eq: "search unordered fdot chunks q top_k thr = Inr (map result_of kept)"
    unfolding kept_def scored_def by (rule search_eq [OF dims])
  have len: "length (map result_of kept) \<le> nat top_k"
  proof -
    have "length kept \<le> length (slice_to top_k (list_sort_reverse unordered snd scored))"
      unfolding kept_def by (rule length_filter_le)
    also have "\<dots> \<le> nat top_k"
      using k by (simp add: slice_to_def)
    finally show ?thesis by simp
  qed
  have thr: "\<forall>r\<in>set (map result_of kept). fle thr (er_score r)"
    by (auto simp: kept_def result_of_def)
  have rest: "sorted_wrt (\<lambda>a b. fle (er_score b) (er_score a)) (map result_of kept) \<and>
              (\<forall>r\<in>set (map result_of kept). \<exists>c\<in>set chunks.
                  er_chunk_id r = ec_chunk_id c \<and> er_text r = ec_text c \<and>
                  er_chunk_index r = ec_chunk_index c \<and>
                  np_dot fdot q (ec_embedding c) = Inr (er_score r))"
    if nonan: "\<forall>c\<in>set chunks. fdot q (ec_embedding c) \<noteq> NaN"
  proof
    from nonan have nn: "NaN \<notin> set (map snd scored)"
      by (auto simp: scored_def)
    have "sorted_wrt (\<lambda>a b. fle (snd b) (snd a)) kept"
      unfolding kept_def
      by (intro sorted_wrt_filter sorted_wrt_slice_to list_sort_reverse_sorted nn)
    then show "sorted_wrt (\<lambda>a b. fle (er_score b) (er_score a)) (map result_of kept)"
      by (simp add: sorted_wrt_map result_of_def)
    have sub: "set kept \<subseteq> set scored"
    proof -
      have "set kept \<subseteq> set (slice_to top_k (list_sort_reverse unordered snd scored))"
        unfolding kept_def by auto
      also have "\<dots> \<subseteq> set (list_sort_reverse unordered snd scored)"
        by (auto simp: slice_to_def dest: in_set_takeD)
      also have "\<dots> = set scored"
        using nn by (rule list_sort_reverse_set)
      finally show ?thesis .
    qed
    show "\<forall>r\<in>set (map result_of kept). \<exists>c\<in>set chunks.
               er_chunk_id r = ec_chunk_id c \<and> er_text r = ec_text c \<and>
               er_chunk_index r = ec_chunk_index c \<and>
               np_dot fdot q (ec_embedding c) = Inr (er_score r)"
    proof
      fix r assume "r \<in> set (map result_of kept)"
      then obtain p where p: "p \<in> set kept" "r = result_of p" by auto
      with sub have "p \<in> set scored" by auto
      then obtain c where c: "c \<in> set chunks" "p = (c, fdot q (ec_embedding c))"
        by (auto simp: scored_def)
      with dims p show "\<exists>c\<in>set chunks.
               er_chunk_id r = ec_chunk_id c \<and> er_text r = ec_text c \<and>
               er_chunk_index r = ec_chunk_index c \<and>
               np_dot fdot q (ec_embedding c) = Inr (er_score r)"
        by (intro bexI [of _ c]) (simp_all add: result_of_def np_dot_def)
    qed
  qed
  from eq len thr rest show ?thesis by blast
qed

theorem search_top_k_witness:
  "list_all (\<lambda>c. length (ec_embedding c) = length [Fin (1/4), Fin (1/2)]) demo_store \<and>
   (0::int) \<le> 2 \<and>
   list_all (\<lambda>c. sample_dot [Fin (1/4), Fin (1/2)] (ec_embedding c) \<noteq> NaN) demo_store \<and>
   (\<exists>results. search as_it_is sample_dot demo_store [Fin (1/4), Fin (1/2)] 2 (Fin 0) = Inr results \<and>
      map er_score results = [Fin (1/2), Fin (1/4)] \<and> length results \<le> nat 2 \<and>
      sorted_wrt (\<lambda>a b. fle (er_score b) (er_score a)) results)"
proof -
  have dims: "\<forall>c\<in>set demo_store. length (ec_embedding c) = length [Fin (1/4), Fin (1/2)]"
    by (simp add: demo_store_def)
  have k: "(0::int) \<le> 2" by simp
  have nn: "\<forall>c\<in>set demo_store. sample_dot [Fin (1/4), Fin (1/2)] (ec_embedding c) \<noteq> NaN"
    by (simp add: demo_store_def sample_dot_def)
  from search_top_k_sorted_threshold [OF dims k, of as_it_is sample_dot "Fin 0"] demo_search dims nn
  show ?thesis
    by (auto simp: list_all_iff)
qed

text \<open>
  Claim C7 as stated quantifies over every \<open>top_k\<close>. A negative \<open>top_k\<close> makes the
  slice \<^verbatim>\<open>scores[:top_k]\<close> drop elements from the end instead: with three stored
  chunks and \<open>top_k = -1\<close> the search returns two results, which is more than \<open>top_k\<close>.
  No similarity is NaN here.
\<close>

theorem search_negative_top_k_counterexample:
  "search as_it_is sample_dot demo_store [Fin (1/4), Fin (1/2)] (- 1) (Fin 0) =
     Inr [\<lparr>er_chunk_id = ''selected-001'', er_score = Fin (1/2), er_text = ''Beta.'',
           er_chunk_index = 1\<rparr>,
          \<lparr>er_chunk_id = ''selected-000'', er_score = Fin (1/4), er_text = ''Alpha.'',
           er_chunk_index = 0\<rparr>] \<and>
   \<not> int (length
          [\<lparr>er_chunk_id = ''selected-001'', er_score = Fin (1/2), er_text = ''Beta.'',
            er_chunk_index = 1\<rparr>,
           \<lparr>er_chunk_id = ''selected-000'', er_score = Fin (1/4), er_text = ''Alpha.'',
            er_chunk_index = 0\<rparr>]) \<le> - 1 \<and>
   map (\<lambda>c. sample_dot [Fin (1/4), Fin (1/2)] (ec_embedding c)) demo_store =
     [Fin (1/4), Fin (1/2), Fin (- 1/2)]"
  by (simp add: demo_store_def search_def np_dot_def slice_to_def sample_dot_def
      float_value_def list_sort_reverse_def)

text \<open>
  The order of the results needs similarities without NaN. The second stored vector
  below gives the similarities 1/8, NaN, 7/8; when the sort leaves this list as it is
  (as the sort of CPython does with three such keys), the results that pass the
  threshold 0 are in ascending order.
\<close>

lemma search_nan_unsorted:
  "search as_it_is sample_dot nan_store [Fin 1] 3 (Fin 0) =
     Inr [\<lparr>er_chunk_id = ''selected-000'', er_score = Fin (1/8), er_text = ''Alpha.'',
           er_chunk_index = 0\<rparr>,
          \<lparr>er_chunk_id = ''selected-002'', er_score = Fin (7/8), er_text = ''Gamma.'',
           er_chunk_index = 2\<rparr>] \<and>
   \<not> fle (Fin (7/8)) (Fin (1/8))"
  by (simp add: nan_store_def search_def np_dot_def slice_to_def sample_dot_def
      float_value_def list_sort_reverse_def as_it_is_def fle_def)


subsection \<open>Identifiers of the selected-text namespace\<close>

lemma digit_value: "k < 10 \<Longrightarrow> int (of_char (''0123456789'' ! k)) - 48 = int k"
proof -
  assume "k < 10"
  then have "k = 0 \<or> k = 1 \<or> k = 2 \<or> k = 3 \<or> k = 4 \<or> k = 5 \<or> k = 6 \<or> k = 7 \<or>
             k = 8 \<or> k = 9" by presburger
  then show ?thesis by (elim disjE) simp_all
qed

lemma digits_value_snoc:
  "digits_value (s @ [d]) = 10 * digits_value s + (int (of_char d) - 48)"
  by (simp add: digits_value_def)

lemma digits_value_str_nat: "digits_value (str_nat n) = int n"
proof (induction n rule: str_nat.induct)
  case (1 n)
  show ?case
  proof (cases "n < 10")
    case True
    then have "str_nat n = [] @ [''0123456789'' ! n]" by (subst str_nat.simps) simp
    then have "digits_value (str_nat n) = 10 * digits_value [] + (int (of_char (''0123456789'' ! n)) - 48)"
      by (simp only: digits_value_snoc)
    with digit_value [OF True] show ?thesis by (simp add: digits_value_def)
  next
    case False
    then have n: "str_nat n = str_nat (n div 10) @ [''0123456789'' ! (n mod 10)]"
      by (subst str_nat.simps) simp
    have "int (of_char (''0123456789'' ! (n mod 10))) - 48 = int (n mod 10)"
      by (rule digit_value) simp
    with "1.IH" [OF False] have "digits_value (str_nat n) = 10 * int (n div 10) + int (n mod 10)"
      unfolding n digits_value_snoc by simp
    then show ?thesis by (simp add: zdiv_int zmod_int)
  qed
qed

lemma digits_value_zeros: "digits_value (replicate k (CHR ''0'') @ s) = digits_value s"
  by (induction k) (simp_all add: digits_value_def)

lemma str_nat_hd: "0 < n \<Longrightarrow> hd (str_nat n) \<noteq> CHR ''0''"
proof (induction n rule: str_nat.induct)
  case (1 n)
  show ?case
  proof (cases "n < 10")
    case True
    then have n: "str_nat n = [''0123456789'' ! n]" by (subst str_nat.simps) simp
    have "''0123456789'' ! n \<noteq> ''0123456789'' ! 0"
      using digit_char_inj [OF True, of 0] "1.prems" by auto
    then show ?thesis by (simp add: n)
  next
    case False
    then have n: "str_nat n = str_nat (n div 10) @ [''0123456789'' ! (n mod 10)]"
      by (subst str_nat.simps) simp
    from False have "0 < n div 10" by (simp add: div_greater_zero_iff)
    from "1.IH" [OF False this] show ?thesis
      unfolding n using str_nat_nonempty [of "n div 10"] by simp
  qed
qed

lemma str_nat_zero: "str_nat 0 = ''0''"
  by (subst str_nat.simps) simp

lemma format_03d_digits: "list_all is_digit (format_03d i)"
proof -
  have "is_digit (CHR ''0'')" by (simp add: is_digit_def)
  then show ?thesis
    by (auto simp: format_03d_def list_all_iff str_nat_digits)
qed

lemma format_03d_value: "digits_value (format_03d i) = int i"
  by (simp add: format_03d_def digits_value_zeros digits_value_str_nat)

lemma format_03d_length: "3 \<le> length (format_03d i)"
  by (simp add: format_03d_def)

lemma format_03d_hd: "3 < length (format_03d i) \<Longrightarrow> hd (format_03d i) \<noteq> CHR ''0''"
proof -
  assume a: "3 < length (format_03d i)"
  then have long: "3 < length (str_nat i)"
    by (simp add: format_03d_def split: if_splits)
  then have eq: "format_03d i = str_nat i"
    by (simp add: format_03d_def)
  have "0 < i"
  proof (rule ccontr)
    assume "\<not> 0 < i"
    then have "str_nat i = ''0''" by (simp add: str_nat_zero)
    with long show False by simp
  qed
  then show ?thesis unfolding eq by (rule str_nat_hd)
qed

lemma store_nth:
  "i < length (create_ephemeral_store env m txt) \<Longrightarrow>
   ec_chunk_id (create_ephemeral_store env m txt ! i) = ''selected-'' @ format_03d i \<and>
   ec_chunk_index (create_ephemeral_store env m txt ! i) = i"
  by (simp add: create_ephemeral_store_def Let_def nth_enumerate_eq split: prod.splits)

lemma store_ids_distinct: "distinct (map ec_chunk_id (create_ephemeral_store env m txt))"
proof -
  have "map ec_chunk_id (create_ephemeral_store env m txt) ! i \<noteq>
        map ec_chunk_id (create_ephemeral_store env m txt) ! j"
    if "i < length (create_ephemeral_store env m txt)"
       "j < length (create_ephemeral_store env m txt)" "i \<noteq> j" for i j
  proof
    assume "map ec_chunk_id (create_ephemeral_store env m txt) ! i =
            map ec_chunk_id (create_ephemeral_store env m txt) ! j"
    with that(1,2) have "format_03d i = format_03d j"
      by (simp add: store_nth)
    then have "digits_value (format_03d i) = digits_value (format_03d j)" by simp
    with that(3) show False by (simp add: format_03d_value)
  qed
  then show ?thesis by (simp add: distinct_conv_nth)
qed

lemma twelve_chunks:
  "chunk_selected_text demo_env 2 twelve_sentences =
     [''A.'', ''B.'', ''C.'', ''D.'', ''E.'', ''F.'', ''G.'', ''H.'', ''I.'', ''J.'', ''K.'', ''L.'']"
  by (simp add: chunk_selected_text_def demo_env_def twelve_sentences_def char_tokens_def
      is_space_def split_text_by_sentences_def sentences_of_def regex_split_sentences.simps
      is_terminator_def flush_def)

lemma store_ids_map:
  "map ec_chunk_id (create_ephemeral_store env m txt) =
   map (\<lambda>i. ''selected-'' @ format_03d i) [0 ..< length (create_ephemeral_store env m txt)]"
  by (rule nth_equalityI) (simp_all add: store_nth)

lemma twelve_store_length: "length (create_ephemeral_store demo_env 2 twelve_sentences) = 12"
proof -
  have "env_embed_texts demo_env = map (\<lambda>t. [Fin 1, Fin 0])"
    by (simp add: demo_env_def)
  then show ?thesis
    by (simp add: create_ephemeral_store_def twelve_chunks Let_def)
qed

lemma format_03d_samples:
  "map format_03d [0, 1, 2, 3, 4, 5, 6, 7, 8, 9, 10, 11] =
     [''000'', ''001'', ''002'', ''003'', ''004'', ''005'', ''006'', ''007'', ''008'', ''009'',
      ''010'', ''011''] \<and>
   map format_03d [99, 100, 1000] = [''099'', ''100'', ''1000'']"
  by (simp add: format_03d_def str_nat.simps numeral_2_eq_2)

lemma twelve_store_ids:
  "map ec_chunk_id (create_ephemeral_store demo_env 2 twelve_sentences) =
     [''selected-000'', ''selected-001'', ''selected-002'', ''selected-003'', ''selected-004'',
      ''selected-005'', ''selected-006'', ''selected-007'', ''selected-008'', ''selected-009'',
      ''selected-010'', ''selected-011'']"
proof -
  have "[0 ..< 12] = [0, 1, 2, 3, 4, 5, 6, 7, 8, 9, 10, 11 :: nat]"
    by (simp add: upt_rec)
  then have "map ec_chunk_id (create_ephemeral_store demo_env 2 twelve_sentences) =
        map (\<lambda>s. ''selected-'' @ s) (map format_03d [0, 1, 2, 3, 4, 5, 6, 7, 8, 9, 10, 11])"
    by (simp only: store_ids_map twelve_store_length map_map comp_def)
  then show ?thesis
    by (simp only: format_03d_samples) simp
qed


lemma twelve_store:
  "create_ephemeral_store demo_env 2 twelve_sentences =
     map (\<lambda>(i, t). \<lparr>ec_chunk_id = ''selected-'' @ format_03d i, ec_text = t,
                      ec_embedding = [Fin 1, Fin 0], ec_chunk_index = i\<rparr>)
       (zip [0, 1, 2, 3, 4, 5, 6, 7, 8, 9, 10, 11]
          [''A.'', ''B.'', ''C.'', ''D.'', ''E.'', ''F.'', ''G.'', ''H.'', ''I.'', ''J.'', ''K.'', ''L.''])"
proof -
  have upt: "[0 ..< 12] = [0, 1, 2, 3, 4, 5, 6, 7, 8, 9, 10, 11 :: nat]"
    by (simp add: upt_rec)
  have h: "env_embed_texts demo_env = map (\<lambda>t. [Fin 1, Fin 0])"
    by (simp add: demo_env_def)
  show ?thesis
    unfolding create_ephemeral_store_def Let_def h twelve_chunks enumerate_eq_zip
    apply (simp add: upt)
    apply (simp add: eval_nat_numeral)
    done
qed

lemma twelve_answer:
  "answer_query demo_env 2 ''What does J do?'' twelve_sentences 5 =
     Inr (''It maps joint rates.'',
          [\<lparr>cit_chunk_id = ''selected-000'', cit_chapter = 0, cit_section = ''selected'',
            cit_url_anchor = [], cit_relevance_score = 1/4, cit_text_preview = ''A.'',
            cit_source = ''Chapter 0, Section selected''\<rparr>,
           \<lparr>cit_chunk_id = ''selected-001'', cit_chapter = 0, cit_section = ''selected'',
            cit_url_anchor = [], cit_relevance_score = 1/4, cit_text_preview = ''B.'',
            cit_source = ''Chapter 0, Section selected''\<rparr>,
           \<lparr>cit_chunk_id = ''selected-002'', cit_chapter = 0, cit_section = ''selected'',
            cit_url_anchor = [], cit_relevance_score = 1/4, cit_text_preview = ''C.'',
            cit_source = ''Chapter 0, Section selected''\<rparr>])"
proof -
  have env: "env_embed_text demo_env = (\<lambda>q. [Fin (1/4), Fin (1/2)])"
      "env_dot demo_env = sample_dot" "env_unordered demo_env = as_it_is"
      "env_llm demo_env = (\<lambda>messages. Inr ''It maps joint rates. '')"
    by (simp_all add: demo_env_def)
  have nomark: "find_markers ''It maps joint rates.'' = []"
    by (simp add: find_markers.simps match_marker_def lower_char_def is_upper_def)
  have strip: "strip ''It maps joint rates. '' = ''It maps joint rates.''"
    by (simp add: strip_def is_space_def)
  have r2: "replicate 2 (CHR ''0'') = ''00''" by (simp add: numeral_2_eq_2)
  show ?thesis
    by (simp add: answer_query_def twelve_store env
        search_def np_dot_def slice_to_def sample_dot_def float_value_def list_sort_reverse_def
        generate_answer_def strip extract_citations_def emit_citations_def nomark
        make_citation_def citation_of_def citation_source_def sort_citations_def
        format_03d_def str_nat.simps str_int_def r2 Let_def fle_def)
qed

text \<open>
  Claim C6. The chunk at position \<open>i\<close> of the store that \<open>create_ephemeral_store\<close>
  builds has the index \<open>i\<close> and the identifier \<open>selected-\<close> followed by \<open>i\<close> in decimal
  digits, padded with zeros to three digits: at least three digits, whose value is
  \<open>i\<close>, without a leading zero when there are more than three. So the identifiers of a
  store are pairwise distinct. Every citation that \<open>answer_query\<close> returns has an
  identifier that starts with \<open>selected-\<close>, whatever the language model answered.
\<close>

theorem selected_text_ids:
  "(\<forall>i < length (create_ephemeral_store env m txt).
      ec_chunk_index (create_ephemeral_store env m txt ! i) = i \<and>
      (\<exists>ds. ec_chunk_id (create_ephemeral_store env m txt ! i) = ''selected-'' @ ds \<and>
            list_all is_digit ds \<and> digits_value ds = int i \<and> 3 \<le> length ds \<and>
            (3 < length ds \<longrightarrow> hd ds \<noteq> CHR ''0''))) \<and>
   distinct (map ec_chunk_id (create_ephemeral_store env m txt)) \<and>
   (\<forall>answer citations. answer_query env m q txt k = Inr (answer, citations) \<longrightarrow>
      (\<forall>c\<in>set citations. prefix ''selected-'' (cit_chunk_id c)))"
proof (intro conjI allI impI)
  fix i assume i: "i < length (create_ephemeral_store env m txt)"
  then show "ec_chunk_index (create_ephemeral_store env m txt ! i) = i"
    by (simp add: store_nth)
  from i have "ec_chunk_id (create_ephemeral_store env m txt ! i) = ''selected-'' @ format_03d i"
    by (simp add: store_nth)
  moreover have "3 < length (format_03d i) \<longrightarrow> hd (format_03d i) \<noteq> CHR ''0''"
    using format_03d_hd by blast
  ultimately show "\<exists>ds. ec_chunk_id (create_ephemeral_store env m txt ! i) = ''selected-'' @ ds \<and>
            list_all is_digit ds \<and> digits_value ds = int i \<and> 3 \<le> length ds \<and>
            (3 < length ds \<longrightarrow> hd ds \<noteq> CHR ''0'')"
    using format_03d_digits format_03d_value format_03d_length by blast
next
  show "distinct (map ec_chunk_id (create_ephemeral_store env m txt))"
    by (rule store_ids_distinct)
next
  fix answer citations
  assume "answer_query env m q txt k = Inr (answer, citations)"
  then show "\<forall>c\<in>set citations. prefix ''selected-'' (cit_chunk_id c)"
    by (auto simp: answer_query_def Let_def split: sum.splits if_splits)
qed

theorem selected_text_ids_witness:
  "map ec_chunk_id (create_ephemeral_store demo_env 2 twelve_sentences) =
     [''selected-000'', ''selected-001'', ''selected-002'', ''selected-003'', ''selected-004'',
      ''selected-005'', ''selected-006'', ''selected-007'', ''selected-008'', ''selected-009'',
      ''selected-010'', ''selected-011''] \<and>
   map ec_chunk_index (create_ephemeral_store demo_env 2 twelve_sentences) =
     [0, 1, 2, 3, 4, 5, 6, 7, 8, 9, 10, 11] \<and>
   distinct (map ec_chunk_id (create_ephemeral_store demo_env 2 twelve_sentences)) \<and>
   (\<exists>answer citations.
      answer_query demo_env 2 ''What does J do?'' twelve_sentences 5 = Inr (answer, citations) \<and>
      map cit_chunk_id citations = [''selected-000'', ''selected-001'', ''selected-002''] \<and>
      list_all (\<lambda>c. prefix ''selected-'' (cit_chunk_id c)) citations)"
proof -
  note ids = selected_text_ids [of demo_env 2 twelve_sentences "''What does J do?''" 5]
  have upt: "[0 ..< 12] = [0, 1, 2, 3, 4, 5, 6, 7, 8, 9, 10, 11 :: nat]"
    by (simp add: upt_rec)
  have "map ec_chunk_index (create_ephemeral_store demo_env 2 twelve_sentences) =
        [0 ..< length (create_ephemeral_store demo_env 2 twelve_sentences)]"
    using ids by (intro nth_equalityI) simp_all
  then have idx: "map ec_chunk_index (create_ephemeral_store demo_env 2 twelve_sentences) =
        [0, 1, 2, 3, 4, 5, 6, 7, 8, 9, 10, 11]"
    by (simp only: twelve_store_length upt)
  from ids have dist: "distinct (map ec_chunk_id (create_ephemeral_store demo_env 2 twelve_sentences))"
    by blast
  let ?cs = "[\<lparr>cit_chunk_id = ''selected-000'', cit_chapter = 0, cit_section = ''selected'',
            cit_url_anchor = [], cit_relevance_score = 1/4, cit_text_preview = ''A.'',
            cit_source = ''Chapter 0, Section selected''\<rparr>,
           \<lparr>cit_chunk_id = ''selected-001'', cit_chapter = 0, cit_section = ''selected'',
            cit_url_anchor = [], cit_relevance_score = 1/4, cit_text_preview = ''B.'',
            cit_source = ''Chapter 0, Section selected''\<rparr>,
           \<lparr>cit_chunk_id = ''selected-002'', cit_chapter = 0, cit_section = ''selected'',
            cit_url_anchor = [], cit_relevance_score = 1/4, cit_text_preview = ''C.'',
            cit_source = ''Chapter 0, Section selected''\<rparr>]"
  have ans: "answer_query demo_env 2 ''What does J do?'' twelve_sentences 5 =
             Inr (''It maps joint rates.'', ?cs)"
    by (rule twelve_answer)
  from ids have "\<forall>answer citations.
      answer_query demo_env 2 ''What does J do?'' twelve_sentences 5 = Inr (answer, citations) \<longrightarrow>
      (\<forall>c\<in>set citations. prefix ''selected-'' (cit_chunk_id c))"
    by (rule conjunct2 [OF conjunct2])
  then have "\<forall>c\<in>set ?cs. prefix ''selected-'' (cit_chunk_id c)"
    by (simp add: ans)
  then have la: "list_all (\<lambda>c. prefix ''selected-'' (cit_chunk_id c)) ?cs"
    by (simp only: list_all_iff)
  have m: "map cit_chunk_id ?cs = [''selected-000'', ''selected-001'', ''selected-002'']"
    by simp
  from ans m la have ex: "\<exists>answer citations.
      answer_query demo_env 2 ''What does J do?'' twelve_sentences 5 = Inr (answer, citations) \<and>
      map cit_chunk_id citations = [''selected-000'', ''selected-001'', ''selected-002''] \<and>
      list_all (\<lambda>c. prefix ''selected-'' (cit_chunk_id c)) citations"
    by (intro exI conjI)
  with twelve_store_ids idx dist show ?thesis
    by (intro conjI)
qed


section \<open>Citation binding\<close>

subsection \<open>Fallback and final order\<close>

lemma valid_hit_Fin: "valid_hit chunk \<Longrightarrow> sr_score chunk = Fin (float_value (sr_score chunk))"
  by (cases "sr_score chunk") (simp_all add: valid_hit_def fle_def float_value_def)

lemma make_citation_valid: "valid_hit chunk \<Longrightarrow> make_citation chunk = Inr (citation_of chunk)"
  by (simp add: make_citation_def valid_hit_def citation_of_def)

lemma int_of_digits_short:
  "length g1 \<le> max_str_digits \<Longrightarrow> int_of_digits g1 = Inr (digits_value g1)"
  by (simp add: int_of_digits_def)

lemma cite_matching_no_match:
  "\<forall>chunk\<in>set chunks. \<not> marker_matches (g1, g2) chunk \<Longrightarrow>
   cite_matching (digits_value g1) g2 chunks st = Inr st"
  by (cases st, hypsubst_thin, induction chunks) (auto simp: marker_matches_def)

lemma cite_markers_no_match:
  "\<forall>m\<in>set ms. length (fst m) \<le> max_str_digits \<and>
      (\<forall>chunk\<in>set chunks. \<not> marker_matches m chunk) \<Longrightarrow>
   cite_markers ms chunks st = Inr st"
proof (induction ms)
  case Nil
  then show ?case by simp
next
  case (Cons m ms)
  obtain g1 g2 where m: "m = (g1, g2)" by (cases m)
  from Cons.prems have len: "length g1 \<le> max_str_digits"
      and no: "\<forall>chunk\<in>set chunks. \<not> marker_matches (g1, g2) chunk"
    by (simp_all add: m)
  from no have "cite_matching (digits_value g1) g2 chunks st = Inr st"
    by (rule cite_matching_no_match)
  with Cons len show ?case by (simp add: m int_of_digits_short)
qed

lemma cite_top_valid:
  "\<forall>chunk\<in>set cs. valid_hit chunk \<Longrightarrow> cite_top cs acc = Inr (acc @ map citation_of cs)"
  by (induction cs arbitrary: acc) (simp_all add: make_citation_valid)

lemma cite_top_length:
  "cite_top cs acc = Inr r \<Longrightarrow> length r = length acc + length cs"
  by (induction cs arbitrary: acc) (auto split: sum.splits)

lemma sorted_desc_sort_key:
  "sorted_wrt (\<lambda>a b. f b \<le> (f a :: real)) (sort_key (\<lambda>x. - f x) xs)"
proof -
  have "sorted (map (\<lambda>x. - f x) (sort_key (\<lambda>x. - f x) xs))"
    by (rule sorted_sort_key)
  then show ?thesis
    by (simp add: sorted_map)
qed

lemma sort_citations_sorted:
  "sorted_wrt (\<lambda>a b. cit_relevance_score b \<le> cit_relevance_score a) (sort_citations cs)"
  unfolding sort_citations_def by (rule sorted_desc_sort_key)

lemma sort_citations_stable:
  "filter (\<lambda>c. cit_relevance_score c = v) (sort_citations cs) =
   filter (\<lambda>c. cit_relevance_score c = v) cs"
proof -
  have "filter (\<lambda>c. - cit_relevance_score c = - v) (sort_citations cs) =
        filter (\<lambda>c. - cit_relevance_score c = - v) cs"
    unfolding sort_citations_def by (rule sort_key_stable)
  then show ?thesis by simp
qed

lemma sort_citations_id:
  assumes "sorted_wrt (\<lambda>a b. cit_relevance_score b \<le> cit_relevance_score a) cs"
  shows "sort_citations cs = cs"
proof -
  from assms have "sorted (map (\<lambda>c. - cit_relevance_score c) cs)"
    by (simp add: sorted_map)
  then show ?thesis
    unfolding sort_citations_def by (rule sort_key_id_if_sorted)
qed

lemma takeWhile_replicate_append:
  "P x \<Longrightarrow> takeWhile P (replicate n x @ ys) = replicate n x @ takeWhile P ys"
  by (induction n) simp_all

lemma dropWhile_replicate_append:
  "P x \<Longrightarrow> dropWhile P (replicate n x @ ys) = dropWhile P ys"
  by (induction n) simp_all

lemma ones_marker_found:
  "find_markers (''[Chapter '' @ replicate (Suc k) (CHR ''1'') @ '']'') =
   [(replicate (Suc k) (CHR ''1''), None)]"
proof -
  have d: "is_digit (CHR ''1'')" "\<not> is_digit (CHR '']'')"
    by (simp_all add: is_digit_def)
  have "match_marker (''[Chapter '' @ replicate (Suc k) (CHR ''1'') @ '']'') =
        Some ((replicate (Suc k) (CHR ''1''), None), [])"
    by (simp add: match_marker_def lower_char_def is_upper_def is_space_def
        takeWhile_replicate_append dropWhile_replicate_append d match_section_def
        close_bracket_def Let_def)
  then have "find_markers (CHR ''['' # ''Chapter '' @ replicate (Suc k) (CHR ''1'') @ '']'') =
      (replicate (Suc k) (CHR ''1''), None) # find_markers []"
    by (subst find_markers.simps) simp
  then show ?thesis by (simp add: find_markers.simps)
qed

lemma long_marker_found: "find_markers long_marker = [(replicate 4301 (CHR ''1''), None)]"
proof -
  have "(4301 :: nat) = Suc 4300" by simp
  then show ?thesis
    unfolding long_marker_def by (simp only: ones_marker_found)
qed

lemma digits_value_ones: "int n \<le> digits_value (replicate n (CHR ''1''))"
proof (induction n)
  case 0
  then show ?case by (simp add: digits_value_def)
next
  case (Suc n)
  have "replicate (Suc n) (CHR ''1'') = replicate n (CHR ''1'') @ [CHR ''1'']"
    by (simp add: replicate_append_same)
  then have "digits_value (replicate (Suc n) (CHR ''1'')) =
             10 * digits_value (replicate n (CHR ''1'')) + 1"
    by (simp only: digits_value_snoc) simp
  with Suc show ?case by simp
qed

text \<open>
  Claim C9 as stated fails on an answer whose marker names a chapter with more than
  4300 digits: no candidate has that chapter, the candidates are valid, and the
  conversion of the chapter number raises \<^verbatim>\<open>ValueError\<close> before the fallback is reached.
\<close>

theorem extract_citations_long_marker_counterexample:
  "five_hits \<noteq> [] \<and> list_all valid_hit five_hits \<and>
   find_markers long_marker = [(replicate 4301 (CHR ''1''), None)] \<and>
   list_all (\<lambda>chunk. sr_chapter chunk < digits_value (replicate 4301 (CHR ''1''))) five_hits \<and>
   list_all (\<lambda>chunk. \<not> marker_matches (replicate 4301 (CHR ''1''), None) chunk) five_hits \<and>
   extract_citations long_marker five_hits = Inl ValueError"
proof -
  define ds where "ds = replicate 4301 (CHR ''1'')"
  have len: "length ds = 4301"
    unfolding ds_def by (simp only: length_replicate)
  have big: "4301 \<le> digits_value ds"
    unfolding ds_def using digits_value_ones [of 4301] by (simp only: of_nat_numeral)
  have found: "find_markers long_marker = [(ds, None)]"
    unfolding ds_def by (rule long_marker_found)
  have ne: "five_hits \<noteq> []" by (simp add: five_hits_def)
  have v: "list_all valid_hit five_hits"
    by (simp add: five_hits_def valid_hit_def hit_def)
  have small: "list_all (\<lambda>chunk. sr_chapter chunk < digits_value ds) five_hits"
    using big by (simp add: five_hits_def hit_def)
  then have no: "list_all (\<lambda>chunk. \<not> marker_matches (ds, None) chunk) five_hits"
    by (auto simp: list_all_iff marker_matches_def)
  have "int_of_digits ds = Inl ValueError"
    by (simp add: int_of_digits_def max_str_digits_def len)
  then have "extract_citations long_marker five_hits = Inl ValueError"
    by (simp add: extract_citations_def emit_citations_def found)
  with ne v found small no show ?thesis
    unfolding ds_def by (intro conjI)
qed

text \<open>
  Claim C9, as the code has it. When the chapter number of every marker has at most
  4300 digits, no marker of the answer matches any candidate, the candidate list is
  not empty and the first three candidates are valid hits, \<open>extract_citations\<close>
  emits the citations of the first \<open>min 3 n\<close> candidates in list order, each with its
  candidate's score, and returns them sorted; when the candidates are ranked by score
  these are the top candidates, in that order. Whatever the answer and the candidates,
  a returned citation list is in descending order of \<open>relevance_score\<close>, citations of
  equal score keep the order in which they were emitted, and the list is not empty
  when the candidate list is not.
\<close>

theorem extract_citations_fallback:
  "(chunks \<noteq> [] \<and>
    (\<forall>m\<in>set (find_markers answer). length (fst m) \<le> max_str_digits \<and>
        (\<forall>chunk\<in>set chunks. \<not> marker_matches m chunk)) \<and>
    (\<forall>chunk\<in>set (take 3 chunks). valid_hit chunk) \<longrightarrow>
      emit_citations answer chunks = Inr (map citation_of (take 3 chunks)) \<and>
      extract_citations answer chunks = Inr (sort_citations (map citation_of (take 3 chunks))) \<and>
      length (sort_citations (map citation_of (take 3 chunks))) = min 3 (length chunks) \<and>
      map (\<lambda>c. Fin (cit_relevance_score c)) (map citation_of (take 3 chunks)) =
        map sr_score (take 3 chunks) \<and>
      (sorted_wrt (\<lambda>a b. fle (sr_score b) (sr_score a)) chunks \<longrightarrow>
         extract_citations answer chunks = Inr (map citation_of (take 3 chunks)))) \<and>
   (\<forall>citations. extract_citations answer chunks = Inr citations \<longrightarrow>
      sorted_wrt (\<lambda>a b. cit_relevance_score b \<le> cit_relevance_score a) citations \<and>
      (\<exists>emitted. emit_citations answer chunks = Inr emitted \<and>
         (\<forall>v. filter (\<lambda>c. cit_relevance_score c = v) citations =
              filter (\<lambda>c. cit_relevance_score c = v) emitted)) \<and>
      (chunks \<noteq> [] \<longrightarrow> citations \<noteq> []))"
proof (intro conjI impI allI)
  assume a: "chunks \<noteq> [] \<and>
    (\<forall>m\<in>set (find_markers answer). length (fst m) \<le> max_str_digits \<and>
        (\<forall>chunk\<in>set chunks. \<not> marker_matches m chunk)) \<and>
    (\<forall>chunk\<in>set (take 3 chunks). valid_hit chunk)"
  then have valid: "\<forall>chunk\<in>set (take 3 chunks). valid_hit chunk" by simp
  from a have "cite_markers (find_markers answer) chunks ([], []) = Inr ([], [])"
    by (intro cite_markers_no_match) simp
  moreover from a have "cite_top (take 3 chunks) [] = Inr (map citation_of (take 3 chunks))"
    by (simp add: cite_top_valid)
  ultimately show emit: "emit_citations answer chunks = Inr (map citation_of (take 3 chunks))"
    using a by (simp add: emit_citations_def)
  then show ext: "extract_citations answer chunks =
      Inr (sort_citations (map citation_of (take 3 chunks)))"
    by (simp add: extract_citations_def)
  show "length (sort_citations (map citation_of (take 3 chunks))) = min 3 (length chunks)"
    by (simp add: sort_citations_def min.commute)
  show "map (\<lambda>c. Fin (cit_relevance_score c)) (map citation_of (take 3 chunks)) =
        map sr_score (take 3 chunks)"
    using valid by (simp add: citation_of_def valid_hit_Fin [symmetric])
  assume "sorted_wrt (\<lambda>a b. fle (sr_score b) (sr_score a)) chunks"
  then have "sorted_wrt (\<lambda>a b. fle (sr_score b) (sr_score a)) (take 3 chunks)"
    by (rule sorted_wrt_take)
  then have "sorted_wrt (\<lambda>a b. float_value (sr_score b) \<le> float_value (sr_score a)) (take 3 chunks)"
  proof (rule sorted_wrt_mono_rel [rotated])
    fix x y assume "x \<in> set (take 3 chunks)" "y \<in> set (take 3 chunks)"
      and le: "fle (sr_score y) (sr_score x)"
    with valid have "valid_hit x" "valid_hit y" by blast+
    then have "sr_score x = Fin (float_value (sr_score x))"
        "sr_score y = Fin (float_value (sr_score y))"
      using valid_hit_Fin by blast+
    with le have "fle (Fin (float_value (sr_score y))) (Fin (float_value (sr_score x)))"
      by (simp only:)
    then show "float_value (sr_score y) \<le> float_value (sr_score x)"
      by (simp only: fle_Fin)
  qed
  then have "sorted_wrt (\<lambda>a b. cit_relevance_score b \<le> cit_relevance_score a)
               (map citation_of (take 3 chunks))"
    by (simp add: sorted_wrt_map citation_of_def)
  then show "extract_citations answer chunks = Inr (map citation_of (take 3 chunks))"
    using ext by (simp add: sort_citations_id)
next
  fix citations
  assume r: "extract_citations answer chunks = Inr citations"
  then obtain emitted where e: "emit_citations answer chunks = Inr emitted"
      and c: "citations = sort_citations emitted"
    by (auto simp: extract_citations_def split: sum.splits)
  show "sorted_wrt (\<lambda>a b. cit_relevance_score b \<le> cit_relevance_score a) citations"
    unfolding c by (rule sort_citations_sorted)
  show "\<exists>emitted. emit_citations answer chunks = Inr emitted \<and>
         (\<forall>v. filter (\<lambda>c. cit_relevance_score c = v) citations =
              filter (\<lambda>c. cit_relevance_score c = v) emitted)"
    using e c sort_citations_stable by blast
  assume ne: "chunks \<noteq> []"
  have "emitted \<noteq> []"
  proof
    assume "emitted = []"
    with e ne obtain st where "cite_top (take 3 chunks) [] = Inr []"
      by (auto simp: emit_citations_def split: sum.splits prod.splits if_splits)
    from cite_top_length [OF this] ne show False by (cases chunks) simp_all
  qed
  then have "length (sort_citations emitted) \<noteq> 0"
    by (simp add: sort_citations_def)
  then show "citations \<noteq> []"
    unfolding c by (simp del: length_0_conv)
qed

lemma no_markers_demo: "find_markers ''Robots move by turning joints.'' = []"
  by (simp add: find_markers.simps match_marker_def lower_char_def is_upper_def)

theorem extract_citations_fallback_witness:
  "five_hits \<noteq> [] \<and> find_markers ''Robots move by turning joints.'' = [] \<and>
   list_all valid_hit (take 3 five_hits) \<and>
   extract_citations ''Robots move by turning joints.'' five_hits =
     Inr [citation_of (hit ''p1'' (9/10) 3 ''3.2''), citation_of (hit ''p2'' (4/5) 3 ''3.1''),
          citation_of (hit ''p3'' (4/5) 4 ''4.1'')] \<and>
   map cit_relevance_score
     [citation_of (hit ''p1'' (9/10) 3 ''3.2''), citation_of (hit ''p2'' (4/5) 3 ''3.1''),
      citation_of (hit ''p3'' (4/5) 4 ''4.1'')] = [9/10, 4/5, 4/5]"
proof -
  have ne: "five_hits \<noteq> []" by (simp add: five_hits_def)
  have v: "\<forall>chunk\<in>set (take 3 five_hits). valid_hit chunk"
    by (simp add: five_hits_def valid_hit_def hit_def)
  have s: "sorted_wrt (\<lambda>a b. fle (sr_score b) (sr_score a)) five_hits"
    by (simp add: five_hits_def hit_def)
  have t: "take 3 five_hits = [hit ''p1'' (9/10) 3 ''3.2'', hit ''p2'' (4/5) 3 ''3.1'', hit ''p3'' (4/5) 4 ''4.1'']"
    by (simp add: five_hits_def)
  have "\<forall>m\<in>set (find_markers ''Robots move by turning joints.'').
          length (fst m) \<le> max_str_digits \<and> (\<forall>chunk\<in>set five_hits. \<not> marker_matches m chunk)"
    by (simp add: no_markers_demo)
  with extract_citations_fallback [of five_hits "''Robots move by turning joints.''"] ne v s
  have "extract_citations ''Robots move by turning joints.'' five_hits =
        Inr (map citation_of (take 3 five_hits))"
    by blast
  with ne v no_markers_demo show ?thesis
    by (simp add: list_all_iff t citation_of_def hit_def float_value_def)
qed

subsection \<open>One marker, two candidates\<close>

lemma cite_matching_single:
  assumes c1: "sr_chapter c1 = n" "sr_section c1 = sec" "valid_hit c1" "sec \<noteq> []"
      and c2: "sr_chapter c2 \<noteq> n \<or> sr_section c2 \<noteq> sec"
      and chunks: "chunks = [c1, c2] \<or> chunks = [c2, c1]"
      and st: "st = ([], []) \<or>
               st = ([citation_of c1], [(sr_chunk_id c1, sr_chapter c1, sr_section c1)])"
  shows "cite_matching n (Some sec) chunks st =
         Inr ([citation_of c1], [(sr_chunk_id c1, sr_chapter c1, sr_section c1)])"
  using assms by (auto simp: truthy_def make_citation_valid Let_def)

lemma cite_markers_single:
  assumes g1: "int_of_digits g1 = Inr n"
      and c1: "sr_chapter c1 = n" "sr_section c1 = sec" "valid_hit c1" "sec \<noteq> []"
      and c2: "sr_chapter c2 \<noteq> n \<or> sr_section c2 \<noteq> sec"
      and chunks: "chunks = [c1, c2] \<or> chunks = [c2, c1]"
      and ms: "set ms \<subseteq> {(g1, Some sec)}"
      and st: "st = ([citation_of c1], [(sr_chunk_id c1, sr_chapter c1, sr_section c1)]) \<or>
               st = ([], []) \<and> ms \<noteq> []"
  shows "cite_markers ms chunks st =
         Inr ([citation_of c1], [(sr_chunk_id c1, sr_chapter c1, sr_section c1)])"
  using ms st
proof (induction ms arbitrary: st)
  case Nil
  then show ?case by simp
next
  case (Cons m ms)
  from Cons.prems have m: "m = (g1, Some sec)" by simp
  have "st = ([], []) \<or>
        st = ([citation_of c1], [(sr_chunk_id c1, sr_chapter c1, sr_section c1)])"
    using Cons.prems by auto
  from cite_matching_single [OF c1 c2 chunks this]
  have "cite_matching n (Some sec) chunks st =
        Inr ([citation_of c1], [(sr_chunk_id c1, sr_chapter c1, sr_section c1)])" .
  moreover have "cite_markers ms chunks
          ([citation_of c1], [(sr_chunk_id c1, sr_chapter c1, sr_section c1)]) =
        Inr ([citation_of c1], [(sr_chunk_id c1, sr_chapter c1, sr_section c1)])"
    using Cons.prems by (intro Cons.IH) auto
  ultimately show ?case by (simp add: m g1)
qed

text \<open>
  Claim C8. The markers found in the answer are occurrences of
  \<^verbatim>\<open>[Chapter 3, Section 3.2]\<close> (in any letter case: the pattern is matched
  case-insensitively, and the witness below reads it in upper and lower case). The
  candidates are \<open>c1\<close> with chapter 3 and section \<open>3.2\<close> and a second candidate \<open>c2\<close>
  that differs in the chapter (chapter 4 in the claim) or in the section, in either
  order. Then exactly one citation is produced, the one of \<open>c1\<close>: \<open>c2\<close> is filtered
  out by its chapter or by the exact comparison of the section, and a repeated
  marker adds nothing because the key (chunk_id, chapter, section) is already cited.
\<close>

theorem extract_citations_single_marker:
  assumes markers: "set (find_markers answer) = {(''3'', Some ''3.2'')}"
      and c1: "sr_chapter c1 = 3" "sr_section c1 = ''3.2''" "valid_hit c1"
      and c2: "sr_chapter c2 \<noteq> 3 \<or> sr_section c2 \<noteq> ''3.2''"
      and chunks: "chunks = [c1, c2] \<or> chunks = [c2, c1]"
  shows "extract_citations answer chunks = Inr [citation_of c1]"
proof -
  have n: "int_of_digits ''3'' = Inr 3"
    by (simp add: int_of_digits_def digits_value_def max_str_digits_def)
  have sec: "''3.2'' \<noteq> []" by simp
  from markers have sub: "set (find_markers answer) \<subseteq> {(''3'', Some ''3.2'')}"
    by (rule equalityD1)
  have ne: "find_markers answer \<noteq> []"
  proof
    assume "find_markers answer = []"
    then have "set (find_markers answer) = {}" by (simp only: set_simps)
    with markers show False by (simp only: insert_not_empty [symmetric])
  qed
  then have st: "([], []) = ([citation_of c1], [(sr_chunk_id c1, sr_chapter c1, sr_section c1)]) \<or>
                 ([] :: Citation list, [] :: (string \<times> int \<times> string) list) = ([], []) \<and>
                 find_markers answer \<noteq> []"
    by blast
  have "cite_markers (find_markers answer) chunks ([], []) =
        Inr ([citation_of c1], [(sr_chunk_id c1, sr_chapter c1, sr_section c1)])"
    by (rule cite_markers_single [OF n c1(1) c1(2) c1(3) sec c2 chunks sub st])
  then show ?thesis
    by (simp add: extract_citations_def emit_citations_def sort_citations_def)
qed

theorem extract_citations_single_marker_witness:
  "set (find_markers ''IK finds joint angles [Chapter 3, Section 3.2].'') = {(''3'', Some ''3.2'')} \<and>
   valid_hit (hit ''p1'' (9/10) 3 ''3.2'') \<and>
   extract_citations ''IK finds joint angles [Chapter 3, Section 3.2].''
     [hit ''p3'' (4/5) 4 ''4.1'', hit ''p1'' (9/10) 3 ''3.2''] =
     Inr [citation_of (hit ''p1'' (9/10) 3 ''3.2'')] \<and>
   find_markers ''[CHAPTER 3, section 3.2]'' = [(''3'', Some ''3.2'')]"
proof -
  have m: "set (find_markers ''IK finds joint angles [Chapter 3, Section 3.2].'') = {(''3'', Some ''3.2'')}"
    by (simp add: find_markers.simps match_marker_def match_section_def close_bracket_def lower_char_def
        is_upper_def is_space_def is_digit_def)
  have m2: "find_markers ''[CHAPTER 3, section 3.2]'' = [(''3'', Some ''3.2'')]"
    by (simp add: find_markers.simps match_marker_def match_section_def close_bracket_def lower_char_def
        is_upper_def is_space_def is_digit_def)
  have v: "valid_hit (hit ''p1'' (9/10) 3 ''3.2'')"
    by (simp add: valid_hit_def hit_def)
  from extract_citations_single_marker [OF m, of "hit ''p1'' (9/10) 3 ''3.2''" "hit ''p3'' (4/5) 4 ''4.1''"
      "[hit ''p3'' (4/5) 4 ''4.1'', hit ''p1'' (9/10) 3 ''3.2'']"] m v m2
  show ?thesis by (simp add: hit_def)
qed

end
